theory Spec2Isabelle
  imports Main "HOL-Library.Word" "HOL-Library.List_Lexorder"
begin

section \<open>rencode/rencode.go: the tag table\<close>

type_synonym byte = "8 word"

named_theorems tags \<open>the tag constants of rencode.go\<close>

definition maxIntLength :: byte where [tags]: "maxIntLength = 64"
definition chrList :: byte where [tags]: "chrList = 59"
definition chrDict :: byte where [tags]: "chrDict = 60"
definition chrInt :: byte where [tags]: "chrInt = 61"
definition chrInt1 :: byte where [tags]: "chrInt1 = 62"
definition chrInt2 :: byte where [tags]: "chrInt2 = 63"
definition chrInt4 :: byte where [tags]: "chrInt4 = 64"
definition chrInt8 :: byte where [tags]: "chrInt8 = 65"
definition chrFloat32 :: byte where [tags]: "chrFloat32 = 66"
definition chrFloat64 :: byte where [tags]: "chrFloat64 = 44"
definition chrTrue :: byte where [tags]: "chrTrue = 67"
definition chrFalse :: byte where [tags]: "chrFalse = 68"
definition chrNone :: byte where [tags]: "chrNone = 69"
definition chrTerm :: byte where [tags]: "chrTerm = 127"
definition intPosFixedStart :: byte where [tags]: "intPosFixedStart = 0"
definition intPosFixedCount :: byte where [tags]: "intPosFixedCount = 44"
definition dictFixedStart :: byte where [tags]: "dictFixedStart = 102"
definition dictFixedCount :: byte where [tags]: "dictFixedCount = 25"
definition intNegFixedStart :: byte where [tags]: "intNegFixedStart = 70"
definition intNegFixedCount :: byte where [tags]: "intNegFixedCount = 32"
definition strFixedStart :: byte where [tags]: "strFixedStart = 128"
definition strFixedCount :: byte where [tags]: "strFixedCount = 64"
definition listFixedStart :: byte where [tags]: "listFixedStart = strFixedStart + strFixedCount"
definition listFixedCount :: byte where [tags]: "listFixedCount = 64"

section \<open>Errors\<close>

text \<open>
  Every error the two packages return, and the two ways a call can end without
  returning: a Go runtime panic, and the exhaustion of the fuel that bounds the
  recursion of the decoder in this model.
\<close>

datatype wire = WireBool | WireInteger "byte list" | WireString | WireSlice | WireMap

datatype error =
    NumberTooLong            \<comment> \<open>\<^verbatim>\<open>rencode: Number is longer than 64 characters\<close>\<close>
  | EOF                      \<comment> \<open>\<^verbatim>\<open>io.EOF\<close>\<close>
  | ErrUnexpectedEOF         \<comment> \<open>\<^verbatim>\<open>io.ErrUnexpectedEOF\<close>\<close>
  | ErrSyntax                \<comment> \<open>\<^verbatim>\<open>strconv.ErrSyntax\<close>\<close>
  | ErrRange                 \<comment> \<open>\<^verbatim>\<open>strconv.ErrRange\<close>\<close>
  | ScanError                \<comment> \<open>an error of \<^verbatim>\<open>fmt.Sscan\<close> into a \<^verbatim>\<open>big.Int\<close>\<close>
  | UnsupportedCode byte     \<comment> \<open>\<^verbatim>\<open>rencode: unsupported code %v\<close>\<close>
  | DecodeTypeError wire     \<comment> \<open>\<^verbatim>\<open>cannot decode a rencode %s into a %s\<close>\<close>
  | DecodeInvalidArgError
  | ZlibError                \<comment> \<open>an error of the zlib reader or writer\<close>
  | ConnError                \<comment> \<open>an error of the TLS connection\<close>
  | RpcError "byte list"     \<comment> \<open>an error made by the codec from a text\<close>
  | Panic                    \<comment> \<open>a runtime panic: the call does not return\<close>
  | OutOfFuel                \<comment> \<open>model only: the recursion bound was reached\<close>

section \<open>Decimal numerals\<close>

text \<open>
  \<^verbatim>\<open>strconv.FormatInt(n, 10)\<close>, \<^verbatim>\<open>fmt.Sprintf("%d", n)\<close> and
  \<^verbatim>\<open>big.Int.String()\<close> all print the shortest decimal numeral, with a leading
  minus sign for a negative number.
\<close>

fun digits :: "nat \<Rightarrow> byte list" where
  "digits n = (if n < 10 then [48 + of_nat n] else digits (n div 10) @ [48 + of_nat (n mod 10)])"

declare digits.simps [simp del]

definition FormatInt :: "int \<Rightarrow> byte list" where
  "FormatInt n = (if n < 0 then 45 # digits (nat (- n)) else digits (nat n))"

section \<open>rencode/encoder.go\<close>

text \<open>
  The encoder writes to an \<^verbatim>\<open>io.Writer\<close>. The writers of this repository
  (\<^verbatim>\<open>bytes.Buffer\<close>, and the zlib writer over one) accept every write, so a call is
  modelled by the bytes it has written, in order, and the error it returned, if any.
  Bytes written before an error stay written.
\<close>

type_synonym written = "byte list \<times> error option"

text \<open>\<^verbatim>\<open>Encoder.write\<close>.\<close>

definition e_write :: "byte list \<Rightarrow> written" where
  "e_write b = (b, None)"

definition failed :: "error \<Rightarrow> written" where
  "failed e = ([], Some e)"

text \<open>\<open>andThen a b\<close>: run \<open>a\<close>; \<^verbatim>\<open>if err != nil { return err }\<close>; run \<open>b\<close>.\<close>

definition andThen :: "written \<Rightarrow> written \<Rightarrow> written" where
  "andThen a b = (case snd a of Some e \<Rightarrow> a | None \<Rightarrow> (fst a @ fst b, snd b))"

primrec inOrder :: "written list \<Rightarrow> written" where
  "inOrder [] = e_write []"
| "inOrder (w # ws) = andThen w (inOrder ws)"

text \<open>\<^verbatim>\<open>binary.Write(e.w, binary.BigEndian, x)\<close> for an integer or float of \<open>n\<close> bytes.\<close>

definition bigEndian :: "nat \<Rightarrow> 'a::len word \<Rightarrow> byte list" where
  "bigEndian n x = map (\<lambda>k. ucast (drop_bit (8 * k) x)) (rev [0..<n])"

definition encodeNil :: written where
  "encodeNil = e_write [chrNone]"

definition encodeBool :: "bool \<Rightarrow> written" where
  "encodeBool b = (if b then e_write [chrTrue] else e_write [chrFalse])"

text \<open>\<^verbatim>\<open>v.Int()\<close> is an \<^verbatim>\<open>int64\<close>; \<^verbatim>\<open>byte(i)\<close>, \<^verbatim>\<open>int16(i)\<close>, \<^verbatim>\<open>int32(i)\<close> truncate.\<close>

definition encodeInt :: "64 word \<Rightarrow> written" where
  "encodeInt i =
    (if 0 \<le> sint i \<and> sint i < uint intPosFixedCount
       then e_write [intPosFixedStart + ucast i]
     else if - uint intNegFixedCount \<le> sint i \<and> sint i < 0
       then e_write [intNegFixedStart - 1 - ucast i]
     else if - 128 \<le> sint i \<and> sint i \<le> 127
       then e_write [chrInt1, ucast i]
     else if - 32768 \<le> sint i \<and> sint i \<le> 32767
       then andThen (e_write [chrInt2]) (e_write (bigEndian 2 (ucast i :: 16 word)))
     else if - 2147483648 \<le> sint i \<and> sint i \<le> 2147483647
       then andThen (e_write [chrInt4]) (e_write (bigEndian 4 (ucast i :: 32 word)))
     else andThen (e_write [chrInt8]) (e_write (bigEndian 8 i)))"

definition encodeBigInt :: "int \<Rightarrow> written" where
  "encodeBigInt bi =
    (let s = FormatInt bi in
     if length s > unat maxIntLength then failed NumberTooLong
     else andThen (e_write [chrInt]) (andThen (e_write s) (e_write [chrTerm])))"

text \<open>\<^verbatim>\<open>v.Uint()\<close> is a \<^verbatim>\<open>uint64\<close>.\<close>

definition encodeUint :: "64 word \<Rightarrow> written" where
  "encodeUint i =
    (if uint i < uint intPosFixedCount
       then e_write [intPosFixedStart + ucast i]
     else if uint i \<le> 127
       then e_write [chrInt1, ucast i]
     else if uint i \<le> 32767
       then andThen (e_write [chrInt2]) (e_write (bigEndian 2 (ucast i :: 16 word)))
     else if uint i \<le> 2147483647
       then andThen (e_write [chrInt4]) (e_write (bigEndian 4 (ucast i :: 32 word)))
     else if uint i \<le> 9223372036854775807
       then andThen (e_write [chrInt8]) (e_write (bigEndian 8 i))
     else encodeBigInt (uint i))"

text \<open>
  A \<^verbatim>\<open>float32\<close> and a \<^verbatim>\<open>float64\<close> are modelled by their IEEE-754 bit
  patterns. \<^verbatim>\<open>float32(v.Float())\<close> widens and narrows again, which gives the
  pattern back (a signalling NaN apart, which the hardware may quieten).
\<close>

definition encodeFloat32 :: "32 word \<Rightarrow> written" where
  "encodeFloat32 f = andThen (e_write [chrFloat32]) (e_write (bigEndian 4 f))"

definition encodeFloat64 :: "64 word \<Rightarrow> written" where
  "encodeFloat64 f = andThen (e_write [chrFloat64]) (e_write (bigEndian 8 f))"

text \<open>\<^verbatim>\<open>byte(lv)\<close> keeps the low eight bits of the length.\<close>

definition encodeBytes :: "byte list \<Rightarrow> written" where
  "encodeBytes v =
    (let lv = length v in
     if (of_nat lv :: byte) < strFixedCount
       then andThen (e_write [strFixedStart + of_nat lv]) (e_write v)
     else andThen (e_write (FormatInt (int lv) @ [58])) (e_write v))"

text \<open>
  A Go value as the encoder sees it through \<^verbatim>\<open>reflect\<close>, by kind. \<open>VNil\<close> is the
  nil interface; \<open>VInt\<close> holds what \<^verbatim>\<open>v.Int()\<close> returns for every signed integer
  type and \<open>VUint\<close> what \<^verbatim>\<open>v.Uint()\<close> returns; \<open>VBigInt\<close> is a \<^verbatim>\<open>big.Int\<close>
  struct; \<open>VBytes\<close> is a slice or array of \<^verbatim>\<open>uint8\<close>; \<open>VSlice\<close> is any other
  slice or array; \<open>VMap\<close> is a map with string keys, its entries listed in the order
  in which \<^verbatim>\<open>v.MapKeys()\<close> happens to return the keys; \<open>VPtr None\<close> is a nil pointer;
  \<open>VOther\<close> is a value of any kind that \<^verbatim>\<open>encodeValue\<close> has no case for (a struct
  other than \<^verbatim>\<open>big.Int\<close>, a complex number, a channel, a function, an interface
  reached through a pointer).
\<close>

datatype gval =
    VNil
  | VBool bool
  | VInt "64 word"
  | VUint "64 word"
  | VFloat32 "32 word"
  | VFloat64 "64 word"
  | VBigInt int
  | VString "byte list"
  | VBytes "byte list"
  | VSlice "gval list"
  | VMap "(byte list \<times> gval) list"
  | VPtr "gval option"
  | VOther

text \<open>
  \<^verbatim>\<open>Encoder.Encode\<close> and \<^verbatim>\<open>Encoder.encodeValue\<close> call each other through
  \<^verbatim>\<open>encodeSlice\<close> and \<^verbatim>\<open>encodeMap\<close>; the first equation is the \<^verbatim>\<open>case nil\<close> of
  \<^verbatim>\<open>Encode\<close>, the others are the \<^verbatim>\<open>switch v.Kind()\<close> of \<^verbatim>\<open>encodeValue\<close>.
  \<^verbatim>\<open>encodeMap\<close> sorts the keys (\<^verbatim>\<open>sort.Sort\<close> on \<^verbatim>\<open>stringValues\<close>, whose
  \<^verbatim>\<open>Less\<close> compares the keys as strings, byte by byte) and looks each value up
  with \<^verbatim>\<open>v.MapIndex\<close>.
\<close>

function encodeValue :: "gval \<Rightarrow> written" where
  "encodeValue VNil = encodeNil"
| "encodeValue (VBool b) = encodeBool b"
| "encodeValue (VInt i) = encodeInt i"
| "encodeValue (VUint i) = encodeUint i"
| "encodeValue (VFloat32 f) = encodeFloat32 f"
| "encodeValue (VFloat64 f) = encodeFloat64 f"
| "encodeValue (VBigInt bi) = encodeBigInt bi"
| "encodeValue (VString s) = encodeBytes s"
| "encodeValue (VBytes s) = encodeBytes s"
| "encodeValue (VSlice vs) =
    (let vLen = length vs; fixedCount = (of_nat vLen :: byte) < listFixedCount in
     andThen (if fixedCount then e_write [listFixedStart + of_nat vLen] else e_write [chrList])
       (andThen (inOrder (map encodeValue vs))
          (if \<not> fixedCount then e_write [chrTerm] else e_write [])))"
| "encodeValue (VMap kvs) =
    (let vLen = length kvs; fixedCount = (of_nat vLen :: byte) < dictFixedCount in
     andThen (if fixedCount then e_write [dictFixedStart + of_nat vLen] else e_write [chrDict])
       (andThen
          (inOrder (map (\<lambda>key. case map_of kvs key of
                                   None \<Rightarrow> failed Panic
                                 | Some val \<Rightarrow> andThen (encodeBytes key) (encodeValue val))
                     (sort (map fst kvs))))
          (if \<not> fixedCount then e_write [chrTerm] else e_write [])))"
| "encodeValue (VPtr None) = encodeNil"
| "encodeValue (VPtr (Some v)) = encodeValue v"
| "encodeValue VOther = e_write []"
  by pat_completeness auto
termination
proof -
  have entry: "size v < Suc (size_list (size_prod (\<lambda>_. 0) size) kvs)"
    if "map_of kvs k = Some v" for kvs :: "(byte list \<times> gval) list" and k v
    using that by (induction kvs) (auto split: if_splits)
  show ?thesis
    by (relation "measure size") (auto dest: entry simp: less_Suc_eq_le size_list_estimation')
qed

definition Encode :: "gval \<Rightarrow> written" where
  "Encode v = encodeValue v"

section \<open>Go library functions the decoder calls\<close>

text \<open>
  \<^verbatim>\<open>strconv.ParseUint(s, 10, 64)\<close>: the loop over the bytes of \<open>s\<close>, on a \<^verbatim>\<open>uint64\<close>.
  A byte that is not a decimal digit is a syntax error (a letter is a digit of at
  least ten, which the base excludes). As soon as the number leaves the \<^verbatim>\<open>uint64\<close>
  range the loop returns a range error, without looking at the bytes that follow:
  \<^verbatim>\<open>n >= cutoff\<close> with \<^verbatim>\<open>cutoff = maxUint64/10 + 1\<close> when the multiplication would
  overflow, and \<^verbatim>\<open>n1 < n\<close> when the addition has wrapped around.
\<close>

fun parseUintLoop :: "64 word \<Rightarrow> byte list \<Rightarrow> error + 64 word" where
  "parseUintLoop n [] = Inr n"
| "parseUintLoop n (c # cs) =
    (if 48 \<le> c \<and> c \<le> 57 then
       (let d = (ucast (c - 48) :: 64 word) in
        if n \<ge> 1844674407370955162 then Inl ErrRange
        else if n * 10 + d < n * 10 then Inl ErrRange
        else parseUintLoop (n * 10 + d) cs)
     else Inl ErrSyntax)"

definition ParseUint :: "byte list \<Rightarrow> error + 64 word" where
  "ParseUint s = (if s = [] then Inl ErrSyntax else parseUintLoop 0 s)"

text \<open>
  \<^verbatim>\<open>strconv.ParseInt(s, 10, 64)\<close>: an optional sign, then \<^verbatim>\<open>ParseUint\<close>, whose
  range error stands for the value \<^verbatim>\<open>maxVal\<close> and so is a range error here too;
  \<^verbatim>\<open>cutoff\<close> is \<open>2 ^ 63\<close>.
\<close>

definition ParseInt :: "byte list \<Rightarrow> error + 64 word" where
  "ParseInt s =
    (if s = [] then Inl ErrSyntax
     else let neg = (hd s = 45);
              s' = (if hd s = 43 \<or> hd s = 45 then tl s else s)
          in case ParseUint s' of
               Inl e \<Rightarrow> Inl e
             | Inr un \<Rightarrow>
                 if \<not> neg \<and> un \<ge> 9223372036854775808 then Inl ErrRange
                 else if neg \<and> un > 9223372036854775808 then Inl ErrRange
                 else Inr (if neg then - un else un))"

text \<open>
  What the decoder needs from the Go library and the hardware, as parameters:
  \<open>float32to64\<close> is the conversion \<^verbatim>\<open>float64(data)\<close> of a \<^verbatim>\<open>float32\<close>, on the bit
  patterns; \<open>sscanBigInt\<close> is \<^verbatim>\<open>fmt.Sscan(s, &bi)\<close> for a \<^verbatim>\<open>big.Int\<close>, which scans
  with the base taken from the prefix of the numeral.
\<close>

record golib =
  float32to64 :: "32 word \<Rightarrow> 64 word"
  sscanBigInt :: "byte list \<Rightarrow> error + int"

text \<open>
  The decoder reads from a \<^verbatim>\<open>bufio.Reader\<close>: the stream is the list of the bytes not
  yet read, and every read returns what is left.
  \<^verbatim>\<open>binary.Read\<close> and \<^verbatim>\<open>io.ReadFull\<close> return \<^verbatim>\<open>io.EOF\<close> when no byte is left and
  \<^verbatim>\<open>io.ErrUnexpectedEOF\<close> when the stream ends after some bytes.
\<close>

definition readFull :: "nat \<Rightarrow> byte list \<Rightarrow> error + (byte list \<times> byte list)" where
  "readFull n bs =
    (if n \<le> length bs then Inr (take n bs, drop n bs)
     else if bs = [] then Inl EOF else Inl ErrUnexpectedEOF)"

text \<open>\<^verbatim>\<open>d.r.ReadBytes(delim)\<close>: the bytes up to and with the first \<open>delim\<close>.\<close>

definition ReadBytes :: "byte \<Rightarrow> byte list \<Rightarrow> error + (byte list \<times> byte list)" where
  "ReadBytes delim bs =
    (if delim \<in> set bs
       then Inr (takeWhile (\<lambda>b. b \<noteq> delim) bs @ [delim], tl (dropWhile (\<lambda>b. b \<noteq> delim) bs))
     else Inl EOF)"

text \<open>The value of big-endian bytes, as \<^verbatim>\<open>binary.Read\<close> builds it.\<close>

definition fromBigEndian :: "byte list \<Rightarrow> 'a::len word" where
  "fromBigEndian bs = foldl (\<lambda>acc b. push_bit 8 acc + ucast b) 0 bs"

section \<open>rencode/decoder.go\<close>

text \<open>
  What the decoder stores into an untyped slot (\<^verbatim>\<open>interface{}\<close>): nothing (the slot
  stays nil), a \<^verbatim>\<open>bool\<close>, an \<^verbatim>\<open>int64\<close>, a \<^verbatim>\<open>big.Int\<close>, a \<^verbatim>\<open>float64\<close>, a
  \<^verbatim>\<open>string\<close>, a \<^verbatim>\<open>[]interface{}\<close> or a \<^verbatim>\<open>map[string]interface{}\<close>. The entries of
  a map are listed in the order in which their keys were first stored.
\<close>

datatype dval =
    DNil
  | DBool bool
  | DInt "64 word"
  | DBigInt int
  | DFloat64 "64 word"
  | DString "byte list"
  | DList "dval list"
  | DDict "(byte list \<times> dval) list"

text \<open>
  The slot a value is decoded into, with its content. The decoder is called in this
  repository with a pointer to an \<^verbatim>\<open>interface{}\<close>, to a \<^verbatim>\<open>string\<close> (the key of a map
  entry) and to a \<^verbatim>\<open>[]interface{}\<close> (the response of the daemon).
\<close>

datatype slot =
    IfaceSlot dval
  | StringSlot "byte list"
  | SliceSlot "dval list"

definition isFixedPosInt :: "byte \<Rightarrow> bool" where
  "isFixedPosInt code \<longleftrightarrow> intPosFixedStart \<le> code \<and> code < intPosFixedStart + intPosFixedCount"

definition isFixedNegInt :: "byte \<Rightarrow> bool" where
  "isFixedNegInt code \<longleftrightarrow> intNegFixedStart \<le> code \<and> code < intNegFixedStart + intNegFixedCount"

definition isFixedString :: "byte \<Rightarrow> bool" where
  "isFixedString code \<longleftrightarrow> strFixedStart \<le> code \<and> code < strFixedStart + strFixedCount"

definition isString :: "byte \<Rightarrow> bool" where
  "isString code \<longleftrightarrow> 48 \<le> code \<and> code \<le> 57"

definition isFixedSlice :: "byte \<Rightarrow> bool" where
  "isFixedSlice code \<longleftrightarrow> listFixedStart \<le> code \<and> code \<le> listFixedStart - 1 + listFixedCount"

definition isFixedMap :: "byte \<Rightarrow> bool" where
  "isFixedMap code \<longleftrightarrow> dictFixedStart \<le> code \<and> code < dictFixedStart + dictFixedCount"

definition decodeStringSize :: "byte \<Rightarrow> byte list \<Rightarrow> error + (64 word \<times> byte list)" where
  "decodeStringSize c bs =
    (case ReadBytes 58 bs of
       Inl e \<Rightarrow> Inl e
     | Inr (line, rest) \<Rightarrow>
         (case ParseInt (c # butlast line) of
            Inl e \<Rightarrow> Inl e
          | Inr n \<Rightarrow> Inr (n, rest)))"

text \<open>
  \<^verbatim>\<open>make([]byte, size)\<close> panics when the size is negative. (It also panics, or the
  process runs out of memory, when the size is larger than the platform can allocate;
  the model has no such limit and reads on to the end of the stream.)
\<close>

definition decodeString :: "slot \<Rightarrow> 64 word \<Rightarrow> byte list \<Rightarrow> error + (slot \<times> byte list)" where
  "decodeString v sz bs =
    (if sint sz < 0 then Inl Panic
     else case readFull (nat (sint sz)) bs of
       Inl e \<Rightarrow> Inl e
     | Inr (data, rest) \<Rightarrow>
         (case v of
            StringSlot _ \<Rightarrow> Inr (StringSlot data, rest)
          | SliceSlot _ \<Rightarrow> Inl (DecodeTypeError WireString)
          | IfaceSlot _ \<Rightarrow> Inr (IfaceSlot (DString data), rest)))"

definition decodeBool :: "slot \<Rightarrow> bool \<Rightarrow> error + slot" where
  "decodeBool v b =
    (case v of
       IfaceSlot _ \<Rightarrow> Inr (IfaceSlot (DBool b))
     | _ \<Rightarrow> Inl (DecodeTypeError WireBool))"

definition setInt :: "golib \<Rightarrow> byte list \<Rightarrow> slot \<Rightarrow> error + slot" where
  "setInt lib s v =
    (case v of
       IfaceSlot _ \<Rightarrow>
         (case ParseInt s of
            Inl ErrRange \<Rightarrow>
              (case sscanBigInt lib s of
                 Inl e \<Rightarrow> Inl e
               | Inr bi \<Rightarrow> Inr (IfaceSlot (DBigInt bi)))
          | Inl e \<Rightarrow> Inl e
          | Inr n \<Rightarrow> Inr (IfaceSlot (DInt n)))
     | _ \<Rightarrow> Inl (DecodeTypeError (WireInteger s)))"

text \<open>\<^verbatim>\<open>binary.Read(d.r, binary.BigEndian, &data)\<close> for a signed integer of \<open>n\<close> bytes.\<close>

definition readInt :: "nat \<Rightarrow> byte list \<Rightarrow> error + (int \<times> byte list)" where
  "readInt n bs =
    (case readFull n bs of
       Inl e \<Rightarrow> Inl e
     | Inr (data, rest) \<Rightarrow>
         Inr (if n = 1 then sint (fromBigEndian data :: 8 word)
              else if n = 2 then sint (fromBigEndian data :: 16 word)
              else if n = 4 then sint (fromBigEndian data :: 32 word)
              else sint (fromBigEndian data :: 64 word), rest))"

definition decodeInt :: "golib \<Rightarrow> slot \<Rightarrow> byte \<Rightarrow> byte list \<Rightarrow> error + (slot \<times> byte list)" where
  "decodeInt lib v code bs =
    (let r = (if code = chrInt1 then map_sum id (map_prod FormatInt id) (readInt 1 bs)
              else if code = chrInt2 then map_sum id (map_prod FormatInt id) (readInt 2 bs)
              else if code = chrInt4 then map_sum id (map_prod FormatInt id) (readInt 4 bs)
              else if code = chrInt8 then map_sum id (map_prod FormatInt id) (readInt 8 bs)
              else if code = chrInt then map_sum id (map_prod butlast id) (ReadBytes chrTerm bs)
              else Inr ([], bs))
     in case r of
          Inl e \<Rightarrow> Inl e
        | Inr (s, rest) \<Rightarrow> map_sum id (\<lambda>v'. (v', rest)) (setInt lib s v))"

text \<open>
  \<^verbatim>\<open>setFloat\<close>: on a slot that is not a float, \<^verbatim>\<open>v.SetFloat\<close> panics, the deferred
  function recovers the panic and its result is dropped, so \<^verbatim>\<open>setFloat\<close> returns
  nil and the slot keeps its content.
\<close>

definition setFloat :: "64 word \<Rightarrow> slot \<Rightarrow> error + slot" where
  "setFloat f v = (case v of IfaceSlot _ \<Rightarrow> Inr (IfaceSlot (DFloat64 f)) | _ \<Rightarrow> Inr v)"

text \<open>
  \<^verbatim>\<open>decodeFloat\<close>: the error of \<^verbatim>\<open>binary.Read\<close> is dropped in the \<^verbatim>\<open>chrFloat32\<close>
  case (the body of the \<^verbatim>\<open>if\<close> is empty) and \<open>data\<close> is then still zero;
  it is returned in the \<^verbatim>\<open>chrFloat64\<close> case.
\<close>

definition decodeFloat :: "golib \<Rightarrow> slot \<Rightarrow> byte \<Rightarrow> byte list \<Rightarrow> error + (slot \<times> byte list)" where
  "decodeFloat lib v code bs =
    (if code = chrFloat32 then
       (case readFull 4 bs of
          Inl e \<Rightarrow> map_sum id (\<lambda>v'. (v', [])) (setFloat (float32to64 lib 0) v)
        | Inr (data, rest) \<Rightarrow>
            map_sum id (\<lambda>v'. (v', rest)) (setFloat (float32to64 lib (fromBigEndian data)) v))
     else if code = chrFloat64 then
       (case readFull 8 bs of
          Inl e \<Rightarrow> Inl e
        | Inr (data, rest) \<Rightarrow> map_sum id (\<lambda>v'. (v', rest)) (setFloat (fromBigEndian data) v))
     else Inl (UnsupportedCode code))"

text \<open>\<^verbatim>\<open>v.SetMapIndex(key, subv)\<close> on the entries of a map.\<close>

primrec SetMapIndex :: "byte list \<Rightarrow> dval \<Rightarrow> (byte list \<times> dval) list \<Rightarrow> (byte list \<times> dval) list" where
  "SetMapIndex k x [] = [(k, x)]"
| "SetMapIndex k x (p # ps) = (if fst p = k then (k, x) # ps else p # SetMapIndex k x ps)"

fun ifaceOf :: "slot \<Rightarrow> dval" where
  "ifaceOf (IfaceSlot x) = x"
| "ifaceOf _ = DNil"

fun stringOf :: "slot \<Rightarrow> byte list" where
  "stringOf (StringSlot s) = s"
| "stringOf _ = []"

text \<open>
  \<^verbatim>\<open>decodeValue\<close>, \<^verbatim>\<open>decodeSlice\<close> and \<^verbatim>\<open>decodeMap\<close> call each other. The
  recursion is bounded by fuel: a call of \<^verbatim>\<open>decodeValue\<close> with fuel left reads one
  byte before it does anything else, and every turn of a loop uses one unit, so fuel
  above the length of the stream is never used up (\<open>Decode\<close> below starts with that
  much). The size \<open>sz\<close> of \<^verbatim>\<open>decodeSlice\<close> and \<^verbatim>\<open>decodeMap\<close> is \<open>-1\<close> for the terminated
  forms, as in the source; \<open>i\<close> is the loop counter.
  In \<^verbatim>\<open>decodeSlice\<close> an untyped slot gets a fresh \<^verbatim>\<open>[]interface{}\<close>, and
  \<^verbatim>\<open>decodeSliceElem\<close> appends a nil element when \<open>i\<close> is the length of the slice
  (\<open>i\<close> is never beyond it) and decodes into element \<open>i\<close>.
  In \<^verbatim>\<open>decodeMap\<close> an untyped slot gets a fresh \<^verbatim>\<open>map[string]interface{}\<close>; every
  turn of the loop peeks one byte and stops at \<^verbatim>\<open>chrTerm\<close>, also in the fixed form;
  the key is decoded into a fresh \<^verbatim>\<open>string\<close> and the value into a fresh nil
  \<^verbatim>\<open>interface{}\<close>.
\<close>

function (sequential) decodeValue :: "golib \<Rightarrow> nat \<Rightarrow> slot \<Rightarrow> byte list \<Rightarrow> error + (slot \<times> byte list)"
  and decodeSlice :: "golib \<Rightarrow> nat \<Rightarrow> slot \<Rightarrow> int \<Rightarrow> byte list \<Rightarrow> error + (slot \<times> byte list)"
  and decodeSliceLoop :: "golib \<Rightarrow> nat \<Rightarrow> int \<Rightarrow> nat \<Rightarrow> dval list \<Rightarrow> byte list \<Rightarrow> error + (dval list \<times> byte list)"
  and decodeMap :: "golib \<Rightarrow> nat \<Rightarrow> slot \<Rightarrow> int \<Rightarrow> byte list \<Rightarrow> error + (slot \<times> byte list)"
  and decodeMapLoop :: "golib \<Rightarrow> nat \<Rightarrow> int \<Rightarrow> nat \<Rightarrow> (byte list \<times> dval) list \<Rightarrow> byte list \<Rightarrow> error + ((byte list \<times> dval) list \<times> byte list)"
where
  "decodeValue lib 0 v bs = Inl OutOfFuel"
| "decodeValue lib (Suc fuel) v [] = Inl EOF"
| "decodeValue lib (Suc fuel) v (c # bs) =
    (if c = chrNone then Inr (v, bs)
     else if c = chrFalse then map_sum id (\<lambda>v'. (v', bs)) (decodeBool v False)
     else if c = chrTrue then map_sum id (\<lambda>v'. (v', bs)) (decodeBool v True)
     else if c = chrInt1 \<or> c = chrInt2 \<or> c = chrInt4 \<or> c = chrInt8 \<or> c = chrInt
       then decodeInt lib v c bs
     else if c = chrFloat32 \<or> c = chrFloat64 then decodeFloat lib v c bs
     else if c = chrList then decodeSlice lib fuel v (- 1) bs
     else if c = chrDict then decodeMap lib fuel v (- 1) bs
     else if isFixedPosInt c
       then map_sum id (\<lambda>v'. (v', bs)) (setInt lib (FormatInt (uint (c - intPosFixedStart))) v)
     else if isFixedNegInt c
       then map_sum id (\<lambda>v'. (v', bs))
              (setInt lib (FormatInt (uint (c - intNegFixedStart + 1) * - 1)) v)
     else if isFixedString c then decodeString v (ucast (c - strFixedStart)) bs
     else if isString c then
       (case decodeStringSize c bs of
          Inl e \<Rightarrow> Inl e
        | Inr (sz, rest) \<Rightarrow> decodeString v sz rest)
     else if isFixedSlice c then decodeSlice lib fuel v (uint (c - listFixedStart)) bs
     else if isFixedMap c then decodeMap lib fuel v (uint (c - dictFixedStart)) bs
     else Inl (UnsupportedCode c))"
| "decodeSlice lib fuel v sz bs =
    (case v of
       IfaceSlot _ \<Rightarrow>
         map_sum id (\<lambda>(x, rest). (IfaceSlot (DList x), rest)) (decodeSliceLoop lib fuel sz 0 [] bs)
     | SliceSlot xs \<Rightarrow>
         map_sum id (\<lambda>(x, rest). (SliceSlot x, rest)) (decodeSliceLoop lib fuel sz 0 xs bs)
     | StringSlot _ \<Rightarrow> Inl (DecodeTypeError WireSlice))"
| "decodeSliceLoop lib 0 sz i xs bs = Inl OutOfFuel"
| "decodeSliceLoop lib (Suc fuel) sz i xs bs =
    (if (0 \<le> sz \<and> int i < sz) \<or> sz < 0 then
       (if sz < 0 \<and> bs = [] then Inl EOF
        else if sz < 0 \<and> hd bs = chrTerm then Inr (xs, tl bs)
        else case decodeValue lib (Suc fuel) (IfaceSlot (if i < length xs then xs ! i else DNil)) bs of
               Inl e \<Rightarrow> Inl e
             | Inr (v', rest) \<Rightarrow>
                 decodeSliceLoop lib fuel sz (Suc i)
                   (if i < length xs then xs[i := ifaceOf v'] else xs @ [ifaceOf v']) rest)
     else Inr (xs, bs))"
| "decodeMap lib fuel v sz bs =
    (case v of
       IfaceSlot _ \<Rightarrow>
         map_sum id (\<lambda>(m, rest). (IfaceSlot (DDict m), rest)) (decodeMapLoop lib fuel sz 0 [] bs)
     | _ \<Rightarrow> Inl (DecodeTypeError WireMap))"
| "decodeMapLoop lib 0 sz i m bs = Inl OutOfFuel"
| "decodeMapLoop lib (Suc fuel) sz i m bs =
    (if (0 \<le> sz \<and> int i < sz) \<or> sz < 0 then
       (if bs = [] then Inl EOF
        else if hd bs = chrTerm then Inr (m, tl bs)
        else case decodeValue lib (Suc fuel) (StringSlot []) bs of
               Inl e \<Rightarrow> Inl e
             | Inr (key, rest) \<Rightarrow>
                 (case decodeValue lib (Suc fuel) (IfaceSlot DNil) rest of
                    Inl e \<Rightarrow> Inl e
                  | Inr (subv, rest') \<Rightarrow>
                      decodeMapLoop lib fuel sz (Suc i)
                        (SetMapIndex (stringOf key) (ifaceOf subv) m) rest'))
     else Inr (m, bs))"
  by pat_completeness auto
termination
  by (relation "measure (\<lambda>x. case x of
          Inl (Inl (lib, fuel, v, bs)) \<Rightarrow> 3 * fuel
        | Inl (Inr (lib, fuel, v, sz, bs)) \<Rightarrow> 3 * fuel + 2
        | Inr (Inl (lib, fuel, sz, i, xs, bs)) \<Rightarrow> 3 * fuel + 1
        | Inr (Inr (Inl (lib, fuel, v, sz, bs))) \<Rightarrow> 3 * fuel + 2
        | Inr (Inr (Inr (lib, fuel, sz, i, m, bs))) \<Rightarrow> 3 * fuel + 1)") auto

text \<open>\<^verbatim>\<open>Decoder.Decode\<close> on a pointer to the slot \<open>v\<close>.\<close>

definition Decode :: "golib \<Rightarrow> slot \<Rightarrow> byte list \<Rightarrow> error + (slot \<times> byte list)" where
  "Decode lib v bs = decodeValue lib (Suc (length bs)) v bs"

section \<open>The codec of the RPC client\<close>

text \<open>
  The TLS connection: the bytes the daemon has sent and the codec has not read yet,
  and the arguments of the calls of \<^verbatim>\<open>conn.Write\<close> so far, one entry for each call.
\<close>

record conn =
  incoming :: "byte list"
  sent :: "byte list list"

record clientCodec =
  conn :: conn
  respBody :: dval

text \<open>\<^verbatim>\<open>rpc.Request\<close>, and \<^verbatim>\<open>rpc.Response\<close>, which has the same fields and \<^verbatim>\<open>Error\<close>.\<close>

record Request =
  ServiceMethod :: "byte list"
  Seq :: "64 word"

record Response = Request +
  Error :: "byte list"

text \<open>
  What the codec needs from outside the repository, as parameters:
  \<open>zlibClose\<close> takes the bytes written to the zlib writer and gives what the buffer
  under it holds after \<^verbatim>\<open>zw.Close()\<close>, or the error of \<^verbatim>\<open>Close\<close>;
  \<open>connWrite\<close> is the error of \<^verbatim>\<open>conn.Write\<close>, if any;
  \<open>zlibNewReader\<close> takes the incoming bytes and gives the error of \<^verbatim>\<open>zlib.NewReader\<close>,
  or the bytes the decoder can read from the zlib reader and the incoming bytes left;
  \<open>equalFold\<close> is \<^verbatim>\<open>strings.EqualFold\<close>;
  \<open>formatOther\<close> is the verb \<^verbatim>\<open>%v\<close> of \<^verbatim>\<open>fmt\<close> on a value that is not a string.
\<close>

record env =
  golib :: golib
  zlibClose :: "byte list \<Rightarrow> error + byte list"
  connWrite :: "byte list \<Rightarrow> error option"
  zlibNewReader :: "byte list \<Rightarrow> error + (byte list \<times> byte list)"
  equalFold :: "byte list \<Rightarrow> byte list \<Rightarrow> bool"
  formatOther :: "dval \<Rightarrow> byte list"

text \<open>
  The elements of a slice or array as \<^verbatim>\<open>bodyValue.Index(i).Interface()\<close> gives
  them; the elements of a byte slice are \<^verbatim>\<open>uint8\<close> values. \<open>None\<close> when the kind
  is not \<^verbatim>\<open>reflect.Slice\<close> or \<^verbatim>\<open>reflect.Array\<close>.
\<close>

fun elements :: "gval \<Rightarrow> gval list option" where
  "elements (VSlice vs) = Some vs"
| "elements (VBytes bs) = Some (map (\<lambda>b. VUint (ucast b)) bs)"
| "elements _ = None"

text \<open>
  \<^verbatim>\<open>getArgs\<close>: the loop over the keys of a map body, in the order of
  \<^verbatim>\<open>bodyValue.MapKeys()\<close>. The values of the map are reached through
  \<^verbatim>\<open>MapIndex\<close> (and \<^verbatim>\<open>Elem\<close> when the map holds interfaces).
\<close>

fun getArgsLoop :: "env \<Rightarrow> (byte list \<times> gval) list \<Rightarrow> (byte list \<times> gval) list \<Rightarrow>
    gval list \<times> (byte list \<times> gval) list \<Rightarrow> gval list \<times> (byte list \<times> gval) list" where
  "getArgsLoop E body [] (args, kwargs) = (args, kwargs)"
| "getArgsLoop E body ((key, _) # keys) (args, kwargs) =
    (if equalFold E [97, 114, 103, 115] key then
       (case map_of body key of
          Some argsValue \<Rightarrow>
            (case elements argsValue of
               Some vs \<Rightarrow> getArgsLoop E body keys (args @ vs, kwargs)
             | None \<Rightarrow> getArgsLoop E body keys (args, kwargs))
        | None \<Rightarrow> getArgsLoop E body keys (args, kwargs))
     else if equalFold E [107, 119, 97, 114, 103, 115] key then
       (case map_of body key of
          Some (VMap kvs) \<Rightarrow> getArgsLoop E body keys (args, kvs)
        | _ \<Rightarrow> getArgsLoop E body keys (args, kwargs))
     else getArgsLoop E body keys (args, kwargs))"

definition getArgs :: "env \<Rightarrow> gval \<Rightarrow> gval list \<times> (byte list \<times> gval) list" where
  "getArgs E body =
    (case body of
       VSlice vs \<Rightarrow> (vs, [])
     | VBytes bs \<Rightarrow> (map (\<lambda>b. VUint (ucast b)) bs, [])
     | VMap kvs \<Rightarrow> getArgsLoop E kvs kvs ([], [])
     | _ \<Rightarrow> ([], []))"

text \<open>
  The end of \<^verbatim>\<open>WriteRequest\<close>, the same in both versions of the codec: encode the
  request into the zlib writer over the buffer, close the zlib writer, write the
  buffer to the connection.
\<close>

definition sendRequest :: "env \<Rightarrow> clientCodec \<Rightarrow> gval \<Rightarrow> error option \<times> clientCodec" where
  "sendRequest E c req =
    (case Encode req of
       (_, Some err) \<Rightarrow> (Some err, c)
     | (plain, None) \<Rightarrow>
         (case zlibClose E plain of
            Inl err \<Rightarrow> (Some err, c)
          | Inr b \<Rightarrow>
              (connWrite E b, c\<lparr>conn := (conn c)\<lparr>sent := sent (conn c) @ [b]\<rparr>\<rparr>)))"

text \<open>
  The request both versions of \<^verbatim>\<open>WriteRequest\<close> build:
  \<^verbatim>\<open>[[seq, method, args, kwargs]]\<close>, with \<^verbatim>\<open>r.Seq\<close> a \<^verbatim>\<open>uint64\<close>.
\<close>

definition requestMessage :: "Request \<Rightarrow> gval list \<Rightarrow> (byte list \<times> gval) list \<Rightarrow> gval" where
  "requestMessage r args kwargs =
    (let msg = [VUint (Seq r), VString (ServiceMethod r), VSlice args, VMap kwargs];
         req = [VSlice msg]
     in VSlice req)"

text \<open>\<^verbatim>\<open>WriteRequest\<close> of the version with \<^verbatim>\<open>getArgs\<close>.\<close>

definition WriteRequest :: "env \<Rightarrow> clientCodec \<Rightarrow> Request \<Rightarrow> gval \<Rightarrow> error option \<times> clientCodec" where
  "WriteRequest E c r body =
    (case getArgs E body of (args, kwargs) \<Rightarrow> sendRequest E c (requestMessage r args kwargs))"

text \<open>
  \<^verbatim>\<open>WriteRequest\<close> of the version with \<^verbatim>\<open>ArgsKwargs\<close>: the body is an
  \<^verbatim>\<open>ArgsKwargs\<close> struct or anything else, which counts as an empty one.
\<close>

datatype body = ArgsKwargs "gval list" "(byte list \<times> gval) list" | NotArgsKwargs gval

fun argsKwargs :: "body \<Rightarrow> gval list \<times> (byte list \<times> gval) list" where
  "argsKwargs (ArgsKwargs args kwargs) = (args, kwargs)"
| "argsKwargs (NotArgsKwargs _) = ([], [])"

definition WriteRequest_ArgsKwargs :: "env \<Rightarrow> clientCodec \<Rightarrow> Request \<Rightarrow> body \<Rightarrow> error option \<times> clientCodec" where
  "WriteRequest_ArgsKwargs E c r body =
    (case argsKwargs body of (args, kwargs) \<Rightarrow> sendRequest E c (requestMessage r args kwargs))"

text \<open>The errors the codec makes itself.\<close>

definition remoteError :: "byte list \<Rightarrow> byte list \<Rightarrow> error" where
  "remoteError exceptionType exceptionMsg = RpcError (exceptionType @ [58, 32] @ exceptionMsg)"

definition eventNotSupported :: error where
  "eventNotSupported = RpcError (map (of_nat \<circ> of_char) ''event is not supported'')"

definition unknownMessageType :: error where
  "unknownMessageType = RpcError (map (of_nat \<circ> of_char) ''unknown message type'')"

definition unwritableType :: error where
  "unwritableType = RpcError (map (of_nat \<circ> of_char) ''Unwritable type passed into decode'')"

text \<open>The verb \<^verbatim>\<open>%v\<close>: a string is printed as it is.\<close>

definition formatV :: "env \<Rightarrow> dval \<Rightarrow> byte list" where
  "formatV E x = (case x of DString s \<Rightarrow> s | _ \<Rightarrow> formatOther E x)"

text \<open>
  \<^verbatim>\<open>ReadResponseHeader\<close> after the decoding: \<open>resp\<close> is the decoded slice. An index
  beyond the slice and a type assertion that fails are runtime panics.
\<close>

definition classify :: "env \<Rightarrow> clientCodec \<Rightarrow> Response \<Rightarrow> dval list \<Rightarrow>
    error option \<times> clientCodec \<times> Response" where
  "classify E c r resp =
    (case resp of
       DInt messageType # DInt seq # rest \<Rightarrow>
         (let r' = r\<lparr>Seq := seq\<rparr> in
          if sint messageType = 1 then
            (case rest of
               [] \<Rightarrow> (Some Panic, c, r')
             | payload # _ \<Rightarrow> (None, c\<lparr>respBody := payload\<rparr>, r'))
          else if sint messageType = 2 then
            (case rest of
               DList (exceptionType # exceptionMsg # _) # _ \<Rightarrow>
                 (Some (remoteError (formatV E exceptionType) (formatV E exceptionMsg)), c, r')
             | _ \<Rightarrow> (Some Panic, c, r'))
          else if sint messageType = 3 then (Some eventNotSupported, c, r')
          else (Some unknownMessageType, c, r'))
     | _ \<Rightarrow> (Some Panic, c, r))"

text \<open>
  \<^verbatim>\<open>ReadResponseHeader\<close>: open a zlib reader on the connection and decode one value
  into a fresh \<^verbatim>\<open>[]interface{}\<close>.
\<close>

definition ReadResponseHeader :: "env \<Rightarrow> clientCodec \<Rightarrow> Response \<Rightarrow>
    error option \<times> clientCodec \<times> Response" where
  "ReadResponseHeader E c r =
    (case zlibNewReader E (incoming (conn c)) of
       Inl err \<Rightarrow> (Some err, c, r)
     | Inr (plain, left) \<Rightarrow>
         (let c' = c\<lparr>conn := (conn c)\<lparr>incoming := left\<rparr>\<rparr> in
          case Decode (golib E) (SliceSlot []) plain of
            Inl err \<Rightarrow> (Some err, c', r)
          | Inr (v, _) \<Rightarrow>
              (case v of SliceSlot resp \<Rightarrow> classify E c' r resp | _ \<Rightarrow> (Some Panic, c', r))))"

text \<open>
  The argument of \<^verbatim>\<open>ReadResponseBody\<close>: something that is not a pointer (the nil
  interface too), a nil pointer, or a pointer to a slot of some type with its
  content. \<^verbatim>\<open>bv.Set\<close> panics when the type of the stashed value is not assignable
  to the type of the slot.
\<close>

datatype gotype =
    TInterface | TBool | TInt64 | TBigInt | TFloat64 | TString | TSlice | TMap | TOther

fun typeOf :: "dval \<Rightarrow> gotype" where
  "typeOf DNil = TInterface"
| "typeOf (DBool _) = TBool"
| "typeOf (DInt _) = TInt64"
| "typeOf (DBigInt _) = TBigInt"
| "typeOf (DFloat64 _) = TFloat64"
| "typeOf (DString _) = TString"
| "typeOf (DList _) = TSlice"
| "typeOf (DDict _) = TMap"

datatype bodyArg = NotPointer | NilPointer | Pointer gotype dval

definition ReadResponseBody :: "clientCodec \<Rightarrow> bodyArg \<Rightarrow> error option \<times> clientCodec \<times> bodyArg" where
  "ReadResponseBody c body =
    (case body of
       Pointer t old \<Rightarrow>
         if respBody c \<noteq> DNil then
           (if t = TInterface \<or> t = typeOf (respBody c)
              then (None, c, Pointer t (respBody c))
            else (Some Panic, c, body))
         else (None, c, body)
     | _ \<Rightarrow> (Some unwritableType, c, body))"

text \<open>
  An instance of the parameters for the concrete examples below: a float32 is
  widened by copying its bits (the examples hold no float); a big integer is
  scanned as a decimal numeral with an optional minus sign, which is what
  \<^verbatim>\<open>fmt.Sscan\<close> does with a numeral that \<^verbatim>\<open>big.Int.String\<close> has printed; zlib
  stores the bytes as they are and the connection accepts every write.
\<close>

fun scanDigits :: "nat \<Rightarrow> byte list \<Rightarrow> nat" where
  "scanDigits acc [] = acc"
| "scanDigits acc (c # cs) = scanDigits (acc * 10 + unat (c - 48)) cs"

definition scanDecimal :: "byte list \<Rightarrow> error + int" where
  "scanDecimal s =
    (if s = [] then Inl ScanError
     else if hd s = 45 then Inr (- int (scanDigits 0 (tl s)))
     else Inr (int (scanDigits 0 s)))"

definition exampleLib :: golib where
  "exampleLib = \<lparr>float32to64 = ucast, sscanBigInt = scanDecimal\<rparr>"

definition exampleEnv :: env where
  "exampleEnv =
    \<lparr>golib = exampleLib, zlibClose = Inr, connWrite = (\<lambda>b. None),
     zlibNewReader = (\<lambda>bs. Inr (bs, [])), equalFold = (=), formatOther = (\<lambda>x. [63])\<rparr>"

section \<open>The values of the specification\<close>

text \<open>
  The bytes \<open>bs\<close> are one whole wire value for \<open>x\<close>: they are not empty and do not
  start with the terminator, and wherever they stand in a stream, the decoder
  (given fuel beyond the length of the stream) reads exactly them and stores \<open>x\<close>
  into a fresh untyped slot.
\<close>

definition decodesTo :: "golib \<Rightarrow> byte list \<Rightarrow> dval \<Rightarrow> bool" where
  "decodesTo lib bs x \<longleftrightarrow>
     bs \<noteq> [] \<and> hd bs \<noteq> chrTerm \<and>
     (\<forall>fuel rest. length bs + length rest < fuel \<longrightarrow>
        decodeValue lib fuel (IfaceSlot DNil) (bs @ rest) = Inr (IfaceSlot x, rest))"

text \<open>
  The bytes of a dict entry: the key as the encoder writes it, then the bytes of the
  value; the entry is a key, the bytes of the value and the value they decode to.
\<close>

definition entryBytes :: "byte list \<times> byte list \<times> dval \<Rightarrow> byte list" where
  "entryBytes item = fst (encodeBytes (fst item)) @ fst (snd item)"

text \<open>
  What claim C10 asks of the outcome \<open>W\<close> of writing the request \<open>req\<close> with the codec
  \<open>c\<close>: when the encoding fails, or the closing of the zlib writer, \<open>W\<close> is that error
  and the codec unchanged; otherwise the connection has got one more write, of the
  whole frame, and \<open>W\<close> holds what that write returned.
\<close>

definition atomicOutcome :: "env \<Rightarrow> clientCodec \<Rightarrow> gval \<Rightarrow> error option \<times> clientCodec \<Rightarrow> bool" where
  "atomicOutcome E c req W \<longleftrightarrow>
     (snd (Encode req) \<noteq> None \<longrightarrow> W = (snd (Encode req), c)) \<and>
     (snd (Encode req) = None \<longrightarrow>
        (\<forall>err. zlibClose E (fst (Encode req)) = Inl err \<longrightarrow> W = (Some err, c)) \<and>
        (\<forall>b. zlibClose E (fst (Encode req)) = Inr b \<longrightarrow>
           fst W = connWrite E b \<and>
           sent (conn (snd W)) = sent (conn c) @ [b] \<and>
           incoming (conn (snd W)) = incoming (conn c) \<and>
           respBody (snd W) = respBody c))"


text \<open>
  The canonical value of a Go value, as the specification gives it for an untyped
  slot: an integer is a 64-bit signed integer when it fits and a big integer
  otherwise, a byte string is a text, a float is a 64-bit float, a nil pointer is
  the absent value and a pointer stands for what it points to. The entries of a
  dict are listed by ascending key.
\<close>

function canon :: "golib \<Rightarrow> gval \<Rightarrow> dval" where
  "canon lib VNil = DNil"
| "canon lib (VBool b) = DBool b"
| "canon lib (VInt i) = DInt i"
| "canon lib (VUint i) = (if uint i \<le> 9223372036854775807 then DInt i else DBigInt (uint i))"
| "canon lib (VFloat32 f) = DFloat64 (float32to64 lib f)"
| "canon lib (VFloat64 f) = DFloat64 f"
| "canon lib (VBigInt bi) =
    (if - 9223372036854775808 \<le> bi \<and> bi \<le> 9223372036854775807 then DInt (word_of_int bi)
     else DBigInt bi)"
| "canon lib (VString s) = DString s"
| "canon lib (VBytes s) = DString s"
| "canon lib (VSlice vs) = DList (map (canon lib) vs)"
| "canon lib (VMap kvs) =
    DDict (map (\<lambda>key. (key, case map_of kvs key of None \<Rightarrow> DNil | Some val \<Rightarrow> canon lib val))
             (sort (map fst kvs)))"
| "canon lib (VPtr None) = DNil"
| "canon lib (VPtr (Some v)) = canon lib v"
| "canon lib VOther = DNil"
  by pat_completeness auto
termination
proof -
  have entry: "size v < Suc (size_list (size_prod (\<lambda>_. 0) size) kvs)"
    if "map_of kvs k = Some v" for kvs :: "(byte list \<times> gval) list" and k v
    using that by (induction kvs) (auto split: if_splits)
  show ?thesis
    by (relation "measure (\<lambda>(lib, v). size v)")
      (auto dest: entry simp: less_Suc_eq_le size_list_estimation')
qed

text \<open>
  A count \<open>n\<close> that the test \<^verbatim>\<open>byte(n) < fixed\<close> of the encoder puts on the side
  of \<open>n < fixed\<close>: the count is below \<open>fixed\<close>, or its low eight bits are not.
\<close>

definition countFits :: "nat \<Rightarrow> byte \<Rightarrow> bool" where
  "countFits n fixed \<longleftrightarrow> n < unat fixed \<or> unat fixed \<le> n mod 256"

text \<open>The length of a Go string or slice is an \<^verbatim>\<open>int\<close>, of 64 bits.\<close>

definition stringFits :: "byte list \<Rightarrow> bool" where
  "stringFits s \<longleftrightarrow> countFits (length s) strFixedCount \<and> length s < 2 ^ 63"

text \<open>
  The values of the data model of the specification that the round trip is stated
  for: every kind the encoder has a case for, a big integer whose decimal numeral
  (with its sign) has at most 64 characters, counts that \<open>countFits\<close> accepts, and
  the keys of a map distinct, as in every Go map.
\<close>

fun supported :: "gval \<Rightarrow> bool" where
  "supported (VBigInt bi) \<longleftrightarrow> length (FormatInt bi) \<le> 64"
| "supported (VString s) \<longleftrightarrow> stringFits s"
| "supported (VBytes s) \<longleftrightarrow> stringFits s"
| "supported (VSlice vs) \<longleftrightarrow> countFits (length vs) listFixedCount \<and> (\<forall>v \<in> set vs. supported v)"
| "supported (VMap kvs) \<longleftrightarrow>
     countFits (length kvs) dictFixedCount \<and> distinct (map fst kvs) \<and>
     (\<forall>kv \<in> set kvs. stringFits (fst kv) \<and> supported (snd kv))"
| "supported (VPtr None) \<longleftrightarrow> True"
| "supported (VPtr (Some v)) \<longleftrightarrow> supported v"
| "supported VOther \<longleftrightarrow> False"
| "supported _ \<longleftrightarrow> True"

text \<open>
  Two Go values that are equal: the same kind and content, where two maps are equal
  when they have the same keys with equal values, in whatever order
  \<^verbatim>\<open>MapKeys\<close> returns the keys of either.
\<close>

inductive sameValue :: "gval \<Rightarrow> gval \<Rightarrow> bool" where
  sameNil: "sameValue VNil VNil"
| sameBool: "sameValue (VBool b) (VBool b)"
| sameInt: "sameValue (VInt i) (VInt i)"
| sameUint: "sameValue (VUint i) (VUint i)"
| sameFloat32: "sameValue (VFloat32 f) (VFloat32 f)"
| sameFloat64: "sameValue (VFloat64 g) (VFloat64 g)"
| sameBigInt: "sameValue (VBigInt bi) (VBigInt bi)"
| sameString: "sameValue (VString s) (VString s)"
| sameBytes: "sameValue (VBytes s) (VBytes s)"
| sameSlice: "list_all2 sameValue vs ws \<Longrightarrow> sameValue (VSlice vs) (VSlice ws)"
| sameMap: "distinct (map fst xs) \<Longrightarrow> distinct (map fst ys) \<Longrightarrow>
     (\<forall>key. rel_option sameValue (map_of xs key) (map_of ys key)) \<Longrightarrow>
     sameValue (VMap xs) (VMap ys)"
| samePtr: "rel_option sameValue p q \<Longrightarrow> sameValue (VPtr p) (VPtr q)"
| sameOther: "sameValue VOther VOther"

section \<open>Properties of the encoder\<close>

declare e_write_def [simp] failed_def [simp]

lemma andThen_ok [simp]: "andThen (a, None) w = (a @ fst w, snd w)"
  by (simp add: andThen_def)

lemma andThen_err [simp]: "andThen (a, Some e) w = (a, Some e)"
  by (simp add: andThen_def)

lemma length_bigEndian [simp]: "length (bigEndian n x) = n"
  by (simp add: bigEndian_def)

lemma uint_ucast_sint: "uint (ucast (i :: 64 word) :: byte) = sint i mod 256"
proof -
  have "uint (ucast i :: byte) = take_bit 8 (uint i)"
    by (simp add: unsigned_ucast_eq)
  also have "\<dots> = take_bit 8 (take_bit 64 (sint i))"
    by (simp add: uint_sint)
  also have "\<dots> = take_bit 8 (sint i)"
    by simp
  finally show ?thesis
    by (simp add: take_bit_eq_mod)
qed

lemma fixed_neg_byte:
  assumes "- 32 \<le> sint i" "sint i < 0"
  shows "uint (70 - 1 - ucast (i :: 64 word) :: byte) = 70 - 1 - sint i"
proof -
  have "uint (70 - 1 - ucast i :: byte) = (69 - uint (ucast i :: byte)) mod 256"
    by (simp add: uint_word_ariths)
  also have "\<dots> = (69 - sint i mod 256) mod 256"
    by (simp add: uint_ucast_sint)
  also have "\<dots> = (69 - sint i) mod 256"
    by (simp add: mod_diff_right_eq)
  also have "\<dots> = 69 - sint i"
    using assms by simp
  finally show ?thesis by simp
qed

lemma length_digits_le: "0 < k \<Longrightarrow> n < 10 ^ k \<Longrightarrow> length (digits n) \<le> k"
proof (induction k arbitrary: n)
  case 0
  then show ?case by simp
next
  case (Suc k)
  show ?case
  proof (cases "n < 10")
    case True
    then show ?thesis by (simp add: digits.simps [of n])
  next
    case False
    have "n < 10 * 10 ^ k"
      using Suc.prems by simp
    then have lt: "n div 10 < 10 ^ k"
      by (simp add: less_mult_imp_div_less mult.commute)
    have "0 < k"
    proof (rule ccontr)
      assume "\<not> 0 < k"
      then have "k = 0" by simp
      with Suc.prems False show False by simp
    qed
    then have "length (digits (n div 10)) \<le> k"
      using lt by (rule Suc.IH)
    then show ?thesis
      using False by (simp add: digits.simps [of n])
  qed
qed

lemma length_digits_gt: "10 ^ k \<le> n \<Longrightarrow> k < length (digits n)"
proof (induction k arbitrary: n)
  case 0
  then show ?case by (simp add: digits.simps [of n])
next
  case (Suc k)
  have "(10::nat) ^ k * 10 \<le> n"
    using Suc.prems by (simp add: mult.commute)
  then have ge: "10 ^ k \<le> n div 10"
    by (simp add: less_eq_div_iff_mult_less_eq)
  have "(10::nat) \<le> 10 ^ Suc k"
    by simp
  then have "\<not> n < 10"
    using Suc.prems by linarith
  then show ?case
    using Suc.IH [OF ge] by (simp add: digits.simps [of n])
qed

lemma encodeUint_big:
  assumes "uint (u :: 64 word) > 9223372036854775807"
  shows "encodeUint u = encodeBigInt (uint u)"
    and "encodeBigInt (uint u) = (chrInt # FormatInt (uint u) @ [chrTerm], None)"
proof -
  show "encodeUint u = encodeBigInt (uint u)"
    using assms by (simp add: encodeUint_def tags)
  have "unat u < 10 ^ 20"
    using unsigned_less [of u, where 'a = nat] by simp
  then have "length (digits (unat u)) \<le> 20"
    by (intro length_digits_le) simp_all
  then show "encodeBigInt (uint u) = (chrInt # FormatInt (uint u) @ [chrTerm], None)"
    by (simp add: encodeBigInt_def FormatInt_def tags Let_def)
qed

lemma inOrder_replicate_write: "inOrder (replicate n ([x], None)) = (replicate n x, None)"
  by (induction n) simp_all

subsection \<open>Fixed and variable forms\<close>

text \<open>
  Claim C2: the encoder is to use the fixed form exactly when the count is below the
  number of fixed codes. The test is made on \<^verbatim>\<open>byte(len)\<close>, so a string of 256
  bytes is written in the fixed form of the empty string, tag 128, followed by its
  256 bytes, and a list of 256 elements under tag 192 with no terminator.
\<close>

theorem encodeBytes_256_fixed_form:
  "encodeBytes (replicate 256 0) = (128 # replicate 256 0, None) \<and>
   encodeValue (VSlice (replicate 256 VNil)) = (192 # replicate 256 69, None)"
  by (simp add: encodeBytes_def tags Let_def encodeNil_def inOrder_replicate_write)

subsection \<open>The narrowest integer form\<close>

text \<open>
  Claim C4: \<^verbatim>\<open>encodeInt\<close> never fails and writes one byte for an integer in
  \<open>[-32, 43]\<close> (the integer itself when it is not negative, \<open>70 - 1 - n\<close> when it
  is), two bytes in the rest of the \<^verbatim>\<open>int8\<close> range, three in the \<^verbatim>\<open>int16\<close> range,
  five in the \<^verbatim>\<open>int32\<close> range and nine otherwise; \<^verbatim>\<open>encodeUint\<close> follows the same
  ladder up to the largest \<^verbatim>\<open>int64\<close> and writes a larger value as a big integer:
  tag 61, the decimal numeral, the terminator.
\<close>

theorem encodeInt_narrowest:
  "snd (encodeInt i) = None \<and>
   length (fst (encodeInt i)) =
     (if - 32 \<le> sint i \<and> sint i \<le> 43 then 1
      else if - 128 \<le> sint i \<and> sint i \<le> 127 then 2
      else if - 32768 \<le> sint i \<and> sint i \<le> 32767 then 3
      else if - 2147483648 \<le> sint i \<and> sint i \<le> 2147483647 then 5 else 9) \<and>
   (0 \<le> sint i \<and> sint i \<le> 43 \<longrightarrow> map uint (fst (encodeInt i)) = [sint i]) \<and>
   (- 32 \<le> sint i \<and> sint i < 0 \<longrightarrow> map uint (fst (encodeInt i)) = [70 - 1 - sint i]) \<and>
   (uint u \<le> 9223372036854775807 \<longrightarrow>
      snd (encodeUint u) = None \<and>
      length (fst (encodeUint u)) =
        (if uint u \<le> 43 then 1 else if uint u \<le> 127 then 2 else if uint u \<le> 32767 then 3
         else if uint u \<le> 2147483647 then 5 else 9)) \<and>
   (9223372036854775807 < uint u \<longrightarrow>
      encodeUint u = encodeBigInt (uint u) \<and>
      encodeBigInt (uint u) = (chrInt # FormatInt (uint u) @ [chrTerm], None))"
proof -
  have "snd (encodeInt i) = None"
    by (simp add: encodeInt_def tags)
  moreover have "length (fst (encodeInt i)) =
     (if - 32 \<le> sint i \<and> sint i \<le> 43 then 1
      else if - 128 \<le> sint i \<and> sint i \<le> 127 then 2
      else if - 32768 \<le> sint i \<and> sint i \<le> 32767 then 3
      else if - 2147483648 \<le> sint i \<and> sint i \<le> 2147483647 then 5 else 9)"
    by (simp add: encodeInt_def tags)
  moreover have "map uint (fst (encodeInt i)) = [sint i]" if "0 \<le> sint i \<and> sint i \<le> 43"
    using that by (simp add: encodeInt_def tags uint_ucast_sint)
  moreover have "map uint (fst (encodeInt i)) = [70 - 1 - sint i]" if "- 32 \<le> sint i \<and> sint i < 0"
    using that fixed_neg_byte [of i] by (simp add: encodeInt_def tags)
  moreover have "snd (encodeUint u) = None \<and>
      length (fst (encodeUint u)) =
        (if uint u \<le> 43 then 1 else if uint u \<le> 127 then 2 else if uint u \<le> 32767 then 3
         else if uint u \<le> 2147483647 then 5 else 9)" if "uint u \<le> 9223372036854775807"
    using that by (simp add: encodeUint_def tags)
  moreover have "encodeUint u = encodeBigInt (uint u) \<and>
      encodeBigInt (uint u) = (chrInt # FormatInt (uint u) @ [chrTerm], None)"
    if "9223372036854775807 < uint u"
    using that encodeUint_big [of u] by simp
  ultimately show ?thesis
    by blast
qed

theorem encodeInt_narrowest_witness:
  "map uint (fst (encodeInt 43)) = [43] \<and>
   map uint (fst (encodeInt (- 32))) = [101] \<and>
   length (fst (encodeInt 127)) = 2 \<and>
   length (fst (encodeUint 32767)) = 3 \<and>
   fst (encodeUint 18446744073709551615) = chrInt # FormatInt 18446744073709551615 @ [chrTerm]"
  using encodeInt_narrowest [of 43 32767] encodeInt_narrowest [of "- 32" 18446744073709551615]
    encodeInt_narrowest [of 127 0]
  by simp

subsection \<open>Big integers that are too long\<close>

text \<open>
  Claim C5: encoding a big integer whose decimal numeral has more than 64 characters
  returns the error \<open>NumberTooLong\<close> and writes no byte.
\<close>

theorem encodeBigInt_too_long:
  "64 < length (FormatInt bi) \<Longrightarrow>
     encodeBigInt bi = ([], Some NumberTooLong) \<and> Encode (VBigInt bi) = ([], Some NumberTooLong)"
  by (simp add: encodeBigInt_def Encode_def tags failed_def)

theorem encodeBigInt_too_long_witness:
  "64 < length (FormatInt (10 ^ 64)) \<and> Encode (VBigInt (10 ^ 64)) = ([], Some NumberTooLong)"
  using encodeBigInt_too_long [of "10 ^ 64"] length_digits_gt [of 64 "10 ^ 64"]
  by (simp add: FormatInt_def)

subsection \<open>Streams that end too early\<close>

text \<open>
  Claim C9: a stream that ends inside a value is to give an error. A stream that
  ends inside the four bytes of a float32 decodes with success to the float32
  zero, where the same stream with the float64 tag gives an error.
\<close>

theorem decodeFloat32_truncated:
  "Decode lib (IfaceSlot DNil) [chrFloat32] = Inr (IfaceSlot (DFloat64 (float32to64 lib 0)), []) \<and>
   Decode lib (IfaceSlot DNil) [chrFloat32, 63, 128] = Inr (IfaceSlot (DFloat64 (float32to64 lib 0)), []) \<and>
   Decode lib (IfaceSlot DNil) [chrFloat64] = Inl EOF \<and>
   Decode lib (IfaceSlot DNil) [chrFloat64, 63, 240] = Inl ErrUnexpectedEOF"
  by (simp add: Decode_def tags decodeFloat_def readFull_def setFloat_def)

section \<open>Properties of the codec\<close>

named_theorems decoder \<open>the definitions that evaluate the decoder on a concrete stream\<close>

lemmas [decoder] =
  Decode_def isFixedPosInt_def isFixedNegInt_def isFixedString_def isString_def
  isFixedSlice_def isFixedMap_def decodeStringSize_def decodeString_def decodeBool_def
  decodeInt_def decodeFloat_def readInt_def readFull_def ReadBytes_def setInt_def setFloat_def
  FormatInt_def ParseInt_def ParseUint_def fromBigEndian_def

lemma sendRequest_cases:
  "sendRequest E c req =
    (if snd (Encode req) \<noteq> None then (snd (Encode req), c)
     else case zlibClose E (fst (Encode req)) of
            Inl err \<Rightarrow> (Some err, c)
          | Inr b \<Rightarrow> (connWrite E b, c\<lparr>conn := (conn c)\<lparr>sent := sent (conn c) @ [b]\<rparr>\<rparr>))"
  by (cases "Encode req") (auto simp: sendRequest_def split: option.splits sum.splits)

subsection \<open>Writing a request\<close>

text \<open>
  Claim C10: \<^verbatim>\<open>WriteRequest\<close>, in either version, builds the frame in memory. When
  the encoding of the request fails, or the closing of the zlib writer, it returns
  that error and the codec with its connection is as before: nothing was written
  to the connection. Otherwise it makes one call of \<^verbatim>\<open>conn.Write\<close>, with the whole
  frame, and returns what that call returns.
\<close>

theorem WriteRequest_atomic:
  "atomicOutcome E c (requestMessage r (fst (getArgs E body)) (snd (getArgs E body)))
     (WriteRequest E c r body) \<and>
   atomicOutcome E c (requestMessage r (fst (argsKwargs body')) (snd (argsKwargs body')))
     (WriteRequest_ArgsKwargs E c r body')"
  by (simp add: atomicOutcome_def WriteRequest_def WriteRequest_ArgsKwargs_def sendRequest_cases
      split: prod.splits sum.splits)

theorem WriteRequest_atomic_witness:
  "fst (WriteRequest exampleEnv \<lparr>conn = \<lparr>incoming = [], sent = []\<rparr>, respBody = DNil\<rparr>
         \<lparr>ServiceMethod = [100, 97, 101, 109, 111, 110, 46, 105, 110, 102, 111], Seq = 1\<rparr> VNil) = None \<and>
   sent (conn (snd (WriteRequest exampleEnv \<lparr>conn = \<lparr>incoming = [], sent = []\<rparr>, respBody = DNil\<rparr>
         \<lparr>ServiceMethod = [100, 97, 101, 109, 111, 110, 46, 105, 110, 102, 111], Seq = 1\<rparr> VNil))) =
     [[193, 196, 1, 139, 100, 97, 101, 109, 111, 110, 46, 105, 110, 102, 111, 192, 102]] \<and>
   WriteRequest_ArgsKwargs exampleEnv \<lparr>conn = \<lparr>incoming = [], sent = []\<rparr>, respBody = DNil\<rparr>
         \<lparr>ServiceMethod = [], Seq = 1\<rparr> (ArgsKwargs [VBigInt (10 ^ 64)] []) =
     (Some NumberTooLong, \<lparr>conn = \<lparr>incoming = [], sent = []\<rparr>, respBody = DNil\<rparr>)"
  using WriteRequest_atomic [of exampleEnv "\<lparr>conn = \<lparr>incoming = [], sent = []\<rparr>, respBody = DNil\<rparr>"
      "\<lparr>ServiceMethod = [100, 97, 101, 109, 111, 110, 46, 105, 110, 102, 111], Seq = 1\<rparr>" VNil
      "NotArgsKwargs VNil"]
    WriteRequest_atomic [of exampleEnv "\<lparr>conn = \<lparr>incoming = [], sent = []\<rparr>, respBody = DNil\<rparr>"
      "\<lparr>ServiceMethod = [], Seq = 1\<rparr>" VNil "ArgsKwargs [VBigInt (10 ^ 64)] []"]
    length_digits_gt [of 64 "10 ^ 64"]
  by (simp add: atomicOutcome_def getArgs_def requestMessage_def Encode_def encodeUint_def
      encodeBytes_def encodeBigInt_def FormatInt_def tags Let_def exampleEnv_def)

lemma formatV_string: "remoteError (formatV E (DString t)) (formatV E (DString m)) = RpcError (t @ [58, 32] @ m)"
  by (simp add: remoteError_def formatV_def)

subsection \<open>Reading the header of a response\<close>

text \<open>
  Claim C7: when the response decodes to \<open>[kind, seq, payload]\<close>,
  \<^verbatim>\<open>ReadResponseHeader\<close> sets \<^verbatim>\<open>r.Seq\<close> to \<open>seq\<close> whatever the kind; kind 1
  returns no error and stashes the payload; kind 2 returns the error made of the
  first two elements of the payload list, printed with \<^verbatim>\<open>%v\<close> and joined by a
  colon and a space (two texts are printed as they are); kind 3 returns
  \<^verbatim>\<open>event is not supported\<close>; any other kind returns \<^verbatim>\<open>unknown message type\<close>.
  The stash changes for kind 1 only.
\<close>

theorem ReadResponseHeader_kinds:
  assumes "zlibNewReader E (incoming (conn c)) = Inr (plain, left)"
    and "Decode (golib E) (SliceSlot []) plain = Inr (SliceSlot [DInt kind, DInt seq, payload], rest)"
  shows "case ReadResponseHeader E c r of (err, c', r') \<Rightarrow>
     Seq r' = seq \<and>
     (sint kind = 1 \<longrightarrow> err = None \<and> respBody c' = payload) \<and>
     (sint kind = 2 \<longrightarrow> respBody c' = respBody c \<and>
        (\<forall>t m more. payload = DList (t # m # more) \<longrightarrow>
           err = Some (remoteError (formatV E t) (formatV E m))) \<and>
        (\<forall>t m more. payload = DList (DString t # DString m # more) \<longrightarrow>
           err = Some (RpcError (t @ [58, 32] @ m)))) \<and>
     (sint kind = 3 \<longrightarrow> err = Some eventNotSupported \<and> respBody c' = respBody c) \<and>
     (sint kind \<noteq> 1 \<and> sint kind \<noteq> 2 \<and> sint kind \<noteq> 3 \<longrightarrow>
        err = Some unknownMessageType \<and> respBody c' = respBody c)"
  using assms
  by (auto simp: ReadResponseHeader_def classify_def Let_def formatV_string split: list.splits dval.splits)

theorem ReadResponseHeader_kinds_witness:
  "zlibNewReader exampleEnv [195, 2, 7, 194, 129, 69, 129, 109] =
     Inr ([195, 2, 7, 194, 129, 69, 129, 109], []) \<and>
   Decode (golib exampleEnv) (SliceSlot []) [195, 2, 7, 194, 129, 69, 129, 109] =
     Inr (SliceSlot [DInt 2, DInt 7, DList [DString [69], DString [109]]], []) \<and>
   fst (ReadResponseHeader exampleEnv
     \<lparr>conn = \<lparr>incoming = [195, 2, 7, 194, 129, 69, 129, 109], sent = []\<rparr>, respBody = DNil\<rparr>
     \<lparr>ServiceMethod = [], Seq = 0, Error = []\<rparr>) = Some (RpcError [69, 58, 32, 109]) \<and>
   Seq (snd (snd (ReadResponseHeader exampleEnv
     \<lparr>conn = \<lparr>incoming = [195, 2, 7, 194, 129, 69, 129, 109], sent = []\<rparr>, respBody = DNil\<rparr>
     \<lparr>ServiceMethod = [], Seq = 0, Error = []\<rparr>))) = 7"
proof -
  let ?c = "\<lparr>conn = \<lparr>incoming = [195, 2, 7, 194, 129, 69, 129, 109], sent = []\<rparr>, respBody = DNil\<rparr>"
  have h1: "zlibNewReader exampleEnv (incoming (conn ?c)) = Inr ([195, 2, 7, 194, 129, 69, 129, 109], [])"
    by (simp add: exampleEnv_def)
  have h2: "Decode (golib exampleEnv) (SliceSlot []) [195, 2, 7, 194, 129, 69, 129, 109] =
      Inr (SliceSlot [DInt 2, DInt 7, DList [DString [69], DString [109]]], [])"
    by (simp add: decoder tags digits.simps)
  show ?thesis
    using ReadResponseHeader_kinds [OF h1 h2, of "\<lparr>ServiceMethod = [], Seq = 0, Error = []\<rparr>"] h1 h2
    by (simp add: split_def formatV_string)
qed

subsection \<open>Reading the body of a response\<close>

text \<open>
  Claim C8 says that \<^verbatim>\<open>ReadResponseBody\<close> clears the stash. It does not: after a
  call with a stashed payload the stash still holds the payload.
\<close>

theorem ReadResponseBody_stash_not_cleared:
  "respBody (fst (snd (ReadResponseBody \<lparr>conn = \<lparr>incoming = [], sent = []\<rparr>, respBody = DInt 5\<rparr>
      (Pointer TInterface DNil)))) \<noteq> DNil"
  by (simp add: ReadResponseBody_def)

text \<open>
  Claim C8 as amended: \<^verbatim>\<open>ReadResponseBody\<close> never changes the codec, so the stash
  stays as it is; with a stashed payload, and a pointer to a slot that can hold it
  (an untyped slot, or a slot of the type of the payload), it returns no error and
  the slot holds the payload as it was stashed; with no stash it returns no error
  and the slot keeps its content.
\<close>

theorem ReadResponseBody_keeps_stash:
  "fst (snd (ReadResponseBody c body)) = c \<and>
   (respBody c \<noteq> DNil \<and> (t = TInterface \<or> t = typeOf (respBody c)) \<longrightarrow>
      ReadResponseBody c (Pointer t old) = (None, c, Pointer t (respBody c))) \<and>
   (respBody c = DNil \<longrightarrow> ReadResponseBody c (Pointer t old) = (None, c, Pointer t old))"
  by (simp add: ReadResponseBody_def split: bodyArg.splits)

theorem ReadResponseBody_keeps_stash_witness:
  "ReadResponseBody \<lparr>conn = \<lparr>incoming = [], sent = []\<rparr>, respBody = DInt 5\<rparr> (Pointer TInterface DNil) =
     (None, \<lparr>conn = \<lparr>incoming = [], sent = []\<rparr>, respBody = DInt 5\<rparr>, Pointer TInterface (DInt 5)) \<and>
   ReadResponseBody \<lparr>conn = \<lparr>incoming = [], sent = []\<rparr>, respBody = DNil\<rparr> (Pointer TString (DString [65])) =
     (None, \<lparr>conn = \<lparr>incoming = [], sent = []\<rparr>, respBody = DNil\<rparr>, Pointer TString (DString [65]))"
  using ReadResponseBody_keeps_stash [of "\<lparr>conn = \<lparr>incoming = [], sent = []\<rparr>, respBody = DInt 5\<rparr>" NotPointer TInterface DNil]
    ReadResponseBody_keeps_stash [of "\<lparr>conn = \<lparr>incoming = [], sent = []\<rparr>, respBody = DNil\<rparr>" NotPointer TString "DString [65]"]
  by simp

section \<open>Properties of the decoder\<close>

text \<open>
  The equations of the decoder are unfolded by hand in the proofs below, and by
  \<open>decoder\<close> on a concrete stream.
\<close>

lemmas [decoder] =
  decodeValue.simps decodeSlice.simps decodeSliceLoop.simps decodeMap.simps decodeMapLoop.simps

declare decodeValue.simps(3) [simp del] decodeSlice.simps [simp del] decodeMap.simps [simp del]
  decodeSliceLoop.simps(2) [simp del] decodeMapLoop.simps(2) [simp del]

subsection \<open>A printed integer parses back\<close>

lemma digit_byte:
  assumes "d < 10"
  shows "48 \<le> (48 + of_nat d :: byte)" "(48 + of_nat d :: byte) \<le> 57"
    "(ucast ((48 + of_nat d :: byte) - 48) :: 64 word) = of_nat d"
    "(48 + of_nat d :: byte) \<noteq> 58" "(48 + of_nat d :: byte) \<noteq> 127"
    "(48 + of_nat d :: byte) \<noteq> 45" "(48 + of_nat d :: byte) \<noteq> 43"
    "unat (48 + of_nat d :: byte) = 48 + d"
proof -
  have u: "unat (48 + of_nat d :: byte) = 48 + d"
    using assms by (simp add: unat_word_ariths unat_of_nat)
  show "unat (48 + of_nat d :: byte) = 48 + d" by (rule u)
  show "48 \<le> (48 + of_nat d :: byte)" "(48 + of_nat d :: byte) \<le> 57"
    using assms u by (simp_all add: word_le_nat_alt)
  show "(48 + of_nat d :: byte) \<noteq> 58" "(48 + of_nat d :: byte) \<noteq> 127"
    "(48 + of_nat d :: byte) \<noteq> 45" "(48 + of_nat d :: byte) \<noteq> 43"
    using assms u by (auto simp: word_unat_eq_iff)
  have "unat (ucast (of_nat d :: byte) :: 64 word) = unat (of_nat d :: 64 word)"
    using assms by (simp add: unsigned_ucast_eq unsigned_of_nat take_bit_nat_eq_self)
  then show "(ucast ((48 + of_nat d :: byte) - 48) :: 64 word) = of_nat d"
    by (simp add: word_unat_eq_iff)
qed

lemma parseUintLoop_digit:
  assumes "d < 10" and "a < 2 ^ 64"
  shows "parseUintLoop (of_nat a) ((48 + of_nat d) # cs) =
    (if a * 10 + d < 2 ^ 64 then parseUintLoop (of_nat (a * 10 + d)) cs else Inl ErrRange)"
proof -
  have ua: "unat (of_nat a :: 64 word) = a"
    using assms by (simp add: unat_of_nat)
  show ?thesis
  proof (cases "a * 10 + d < 2 ^ 64")
    case True
    then have "a < 1844674407370955162" by simp
    then have c: "\<not> (1844674407370955162 :: 64 word) \<le> of_nat a"
      using ua by (simp add: word_le_nat_alt)
    have u10: "unat (of_nat a * 10 :: 64 word) = a * 10"
      using True by (simp add: unat_word_ariths ua)
    have "unat (of_nat a * 10 + of_nat d :: 64 word) = a * 10 + d"
      using True assms by (simp add: unat_word_ariths u10 unat_of_nat)
    then have w: "\<not> (of_nat a * 10 + of_nat d :: 64 word) < of_nat a * 10"
      using u10 by (simp add: word_less_nat_alt)
    show ?thesis
      using True c w digit_byte [OF assms(1)] by simp
  next
    case False
    show ?thesis
    proof (cases "a < 1844674407370955162")
      case True
      then have c: "\<not> (1844674407370955162 :: 64 word) \<le> of_nat a"
        using ua by (simp add: word_le_nat_alt)
      have u10: "unat (of_nat a * 10 :: 64 word) = a * 10"
        using True by (simp add: unat_word_ariths ua)
      have "unat (of_nat a * 10 + of_nat d :: 64 word) = (a * 10 + d) mod 2 ^ 64"
        using assms by (simp add: unat_word_ariths unat_of_nat mod_simps)
      also have "\<dots> = a * 10 + d - 2 ^ 64"
        using False True assms(1) by (simp add: mod_if)
      finally have w: "(of_nat a * 10 + of_nat d :: 64 word) < of_nat a * 10"
        using u10 assms(1) False by (simp add: word_less_nat_alt)
      show ?thesis
        using False c w digit_byte [OF assms(1)] by simp
    next
      case False
      then have c: "(1844674407370955162 :: 64 word) \<le> of_nat a"
        using ua by (simp add: word_le_nat_alt)
      show ?thesis
        using \<open>\<not> a * 10 + d < 2 ^ 64\<close> c digit_byte [OF assms(1)] by simp
    qed
  qed
qed

lemma digits_not_Nil [simp]: "digits n \<noteq> []"
  by (subst digits.simps) simp

lemma digits_range: "c \<in> set (digits n) \<Longrightarrow> 48 \<le> unat c \<and> unat c \<le> 57"
proof (induction n arbitrary: c rule: digits.induct)
  case (1 n)
  show ?case
  proof (cases "n < 10")
    case True
    with "1.prems" have "c = 48 + of_nat n"
      by (simp add: digits.simps [of n])
    then show ?thesis
      using digit_byte(8) [OF True] True by simp
  next
    case False
    then have "n mod 10 < 10" by simp
    from digit_byte(8) [OF this] "1.prems" "1.IH" [OF False] False show ?thesis
      by (auto simp: digits.simps [of n])
  qed
qed

lemma hd_digits: "48 \<le> unat (hd (digits n)) \<and> unat (hd (digits n)) \<le> 57"
  using digits_range [of "hd (digits n)" n] by simp

lemma parseUintLoop_digits:
  "a < 2 ^ 64 \<Longrightarrow> parseUintLoop (of_nat a) (digits n @ cs) =
    (if a * 10 ^ length (digits n) + n < 2 ^ 64
     then parseUintLoop (of_nat (a * 10 ^ length (digits n) + n)) cs else Inl ErrRange)"
proof (induction n arbitrary: a cs rule: digits.induct)
  case (1 n)
  show ?case
  proof (cases "n < 10")
    case True
    then show ?thesis
      using parseUintLoop_digit [OF True "1.prems"] by (simp add: digits.simps [of n])
  next
    case False
    let ?m = "n div 10" and ?d = "n mod 10"
    let ?a' = "a * 10 ^ length (digits ?m) + ?m"
    have d: "?d < 10" by simp
    have n: "?m * 10 + ?d = n" by simp
    have len: "length (digits n) = Suc (length (digits ?m))"
      using False by (simp add: digits.simps [of n])
    have eq: "?a' * 10 + ?d = a * 10 ^ length (digits n) + n"
      using n by (simp add: len algebra_simps)
    have split: "digits n @ cs = digits ?m @ ((48 + of_nat ?d) # cs)"
      using False by (simp add: digits.simps [of n])
    show ?thesis
    proof (cases "?a' < 2 ^ 64")
      case True
      have "parseUintLoop (of_nat a) (digits n @ cs) = parseUintLoop (of_nat ?a') ((48 + of_nat ?d) # cs)"
        unfolding split using "1.IH" [OF False "1.prems"] True by simp
      also have "\<dots> = (if ?a' * 10 + ?d < 2 ^ 64 then parseUintLoop (of_nat (?a' * 10 + ?d)) cs else Inl ErrRange)"
        by (rule parseUintLoop_digit [OF d True])
      finally show ?thesis
        unfolding eq .
    next
      case False
      have "?a' \<le> ?a' * 10 + ?d"
        by simp
      then have "?a' \<le> a * 10 ^ length (digits n) + n"
        unfolding eq .
      with False have "\<not> a * 10 ^ length (digits n) + n < 2 ^ 64"
        by linarith
      moreover have "parseUintLoop (of_nat a) (digits n @ cs) = Inl ErrRange"
        unfolding split using "1.IH" [OF \<open>\<not> n < 10\<close> "1.prems"] False by simp
      ultimately show ?thesis by simp
    qed
  qed
qed

lemma ParseUint_digits:
  "ParseUint (digits n) = (if n < 2 ^ 64 then Inr (of_nat n) else Inl ErrRange)"
  using parseUintLoop_digits [of 0 n "[]"] by (simp add: ParseUint_def)

lemma ParseInt_FormatInt:
  "ParseInt (FormatInt k) =
    (if - (2 ^ 63) \<le> k \<and> k < 2 ^ 63 then Inr (word_of_int k) else Inl ErrRange)"
proof (cases "k < 0")
  case False
  then have k: "int (nat k) = k" by simp
  have hd: "hd (digits (nat k)) \<noteq> 45" "hd (digits (nat k)) \<noteq> 43"
    using hd_digits [of "nat k"] by auto
  have le: "(9223372036854775808 :: 64 word) \<le> word_of_nat (nat k) \<longleftrightarrow> 2 ^ 63 \<le> k"
    if "nat k < 2 ^ 64"
  proof -
    have "unat (word_of_nat (nat k) :: 64 word) = nat k"
      using that by (simp add: unat_of_nat)
    then show ?thesis
      using False by (simp add: word_le_nat_alt del: of_nat_nat) linarith
  qed
  show ?thesis
    using False hd le
    by (auto simp: ParseInt_def FormatInt_def ParseUint_digits Let_def)
next
  case True
  let ?m = "nat (- k)"
  have lt: "(9223372036854775808 :: 64 word) < word_of_nat ?m \<longleftrightarrow> k < - (2 ^ 63)"
    if "?m < 2 ^ 64"
  proof -
    have "unat (word_of_nat ?m :: 64 word) = ?m"
      using that by (simp add: unat_of_nat)
    then show ?thesis
      using True by (simp add: word_less_nat_alt del: of_nat_nat) linarith
  qed
  have neg: "- (word_of_nat ?m :: 64 word) = word_of_int k"
    using True by simp
  show ?thesis
    using True lt neg
    by (auto simp: ParseInt_def FormatInt_def ParseUint_digits Let_def)
qed

subsection \<open>Big-endian bytes read back\<close>

lemma ucast_byte_back:
  "(ucast (ucast (y :: 'a::len word) :: byte) :: 'a word) = take_bit 8 y"
  by (rule bit_word_eqI) (auto simp: bit_simps)

lemma take_bit_step:
  "push_bit m (take_bit 8 (drop_bit m x)) + take_bit m x = take_bit (m + 8) (x :: 'a::len word)"
proof -
  have "push_bit m (drop_bit m (take_bit (m + 8) x)) + take_bit m (take_bit (m + 8) x) = take_bit (m + 8) x"
    by (rule bits_ident)
  then show ?thesis
    by (simp add: drop_bit_take_bit min_def)
qed

lemma bigEndian_Suc: "bigEndian (Suc n) x = ucast (drop_bit (8 * n) x) # bigEndian n x"
  by (simp add: bigEndian_def)

lemma foldl_bigEndian:
  "foldl (\<lambda>acc b. push_bit 8 acc + ucast b) acc (bigEndian n x) =
   push_bit (8 * n) acc + take_bit (8 * n) (x :: 'a::len word)"
proof (induction n arbitrary: acc)
  case 0
  then show ?case by (simp add: bigEndian_def)
next
  case (Suc n)
  have "push_bit (8 * n) (push_bit 8 acc + take_bit 8 (drop_bit (8 * n) x)) + take_bit (8 * n) x =
      push_bit (8 * Suc n) acc + take_bit (8 * Suc n) x"
    using take_bit_step [of "8 * n" x] by (simp add: push_bit_add add.assoc add.commute)
  then show ?case
    by (simp add: bigEndian_Suc Suc.IH ucast_byte_back)
qed

lemma fromBigEndian_bigEndian:
  "LENGTH('a) \<le> 8 * n \<Longrightarrow> fromBigEndian (bigEndian n x) = (x :: 'a::len word)"
  by (simp add: fromBigEndian_def foldl_bigEndian take_bit_word_eq_self)

lemma fromBigEndian_single: "(fromBigEndian [b] :: byte) = b"
  by (simp add: fromBigEndian_def)

lemma sint_ucast_range:
  assumes "- (2 ^ (LENGTH('b) - 1)) \<le> sint (i :: 64 word)" "sint i < 2 ^ (LENGTH('b) - 1)" "LENGTH('b::len) \<le> 64"
  shows "sint (ucast i :: 'b word) = sint i"
proof -
  have "(ucast i :: 'b word) = scast i"
    by (rule bit_word_eqI) (use assms(3) in \<open>auto simp: bit_simps\<close>)
  then have "sint (ucast i :: 'b word) = signed_take_bit (LENGTH('b) - 1) (sint i)"
    by (simp add: signed_scast_eq)
  also have "\<dots> = sint i"
    using assms by (simp add: signed_take_bit_int_eq_self)
  finally show ?thesis .
qed

subsection \<open>The dispatch on the leading byte\<close>

lemmas byte_arith = word_le_nat_alt word_less_nat_alt

lemma not_tag:
  assumes "unat c \<notin> {69, 68, 67, 62, 63, 64, 65, 61, 66, 44, 59, 60}"
  shows "c \<noteq> chrNone" "c \<noteq> chrFalse" "c \<noteq> chrTrue" "c \<noteq> chrInt1" "c \<noteq> chrInt2"
    "c \<noteq> chrInt4" "c \<noteq> chrInt8" "c \<noteq> chrInt" "c \<noteq> chrFloat32" "c \<noteq> chrFloat64"
    "c \<noteq> chrList" "c \<noteq> chrDict"
  using assms by (auto simp: tags)

lemma dv_fixedPos:
  assumes "unat c < 44"
  shows "decodeValue lib (Suc f) v (c # bs) =
     map_sum id (\<lambda>v'. (v', bs)) (setInt lib (FormatInt (uint c)) v)"
proof -
  have cls: "isFixedPosInt c"
    using assms by (simp add: isFixedPosInt_def tags byte_arith)
  have "intPosFixedStart = 0"
    by (simp add: tags)
  then show ?thesis
    using not_tag [of c] assms cls by (simp add: decodeValue.simps(3))
qed

lemma dv_fixedNeg:
  assumes "70 \<le> unat c" "unat c \<le> 101"
  shows "decodeValue lib (Suc f) v (c # bs) =
     map_sum id (\<lambda>v'. (v', bs)) (setInt lib (FormatInt (69 - uint c)) v)"
proof -
  have cls: "\<not> isFixedPosInt c" "isFixedNegInt c"
    using assms by (simp_all add: isFixedPosInt_def isFixedNegInt_def tags byte_arith)
  have "uint (69 :: byte) \<le> uint c"
    using assms by (simp add: unat_eq_nat_uint del: nat_uint_eq)
  then have "uint (c - 69) = uint c - uint (69 :: byte)"
    by (simp only: uint_sub_lem)
  then have neg: "- uint (c - intNegFixedStart + 1) = 69 - uint c"
    by (simp add: tags)
  show ?thesis
    using not_tag [of c] assms cls by (simp add: decodeValue.simps(3) neg)
qed

lemma dv_fixedString:
  assumes "128 \<le> unat c" "unat c < 192"
  shows "decodeValue lib (Suc f) v (c # bs) = decodeString v (ucast (c - 128)) bs"
proof -
  have cls: "\<not> isFixedPosInt c" "\<not> isFixedNegInt c" "isFixedString c"
    using assms
    by (simp_all add: isFixedPosInt_def isFixedNegInt_def isFixedString_def tags byte_arith)
  have "strFixedStart = 128"
    by (simp add: tags)
  then show ?thesis
    using not_tag [of c] assms cls by (simp add: decodeValue.simps(3))
qed

lemma dv_string:
  assumes "48 \<le> unat c" "unat c \<le> 57"
  shows "decodeValue lib (Suc f) v (c # bs) =
    (case decodeStringSize c bs of Inl e \<Rightarrow> Inl e | Inr (sz, rest) \<Rightarrow> decodeString v sz rest)"
proof -
  have cls: "\<not> isFixedPosInt c" "\<not> isFixedNegInt c" "\<not> isFixedString c" "isString c"
    using assms
    by (simp_all add: isFixedPosInt_def isFixedNegInt_def isFixedString_def isString_def tags
        byte_arith)
  show ?thesis
    using not_tag [of c] assms cls by (simp add: decodeValue.simps(3))
qed

lemma dv_fixedSlice:
  assumes "192 \<le> unat c"
  shows "decodeValue lib (Suc f) v (c # bs) = decodeSlice lib f v (uint (c - 192)) bs"
proof -
  have "unat c < 256"
    using unsigned_less [of c, where 'a = nat] by simp
  then have cls: "\<not> isFixedPosInt c" "\<not> isFixedNegInt c" "\<not> isFixedString c" "\<not> isString c"
    "isFixedSlice c"
    using assms
    by (simp_all add: isFixedPosInt_def isFixedNegInt_def isFixedString_def isString_def
        isFixedSlice_def tags byte_arith)
  have "listFixedStart = 192"
    by (simp add: tags)
  then show ?thesis
    using not_tag [of c] assms cls by (simp add: decodeValue.simps(3))
qed

lemma dv_fixedMap:
  assumes "102 \<le> unat c" "unat c < 127"
  shows "decodeValue lib (Suc f) v (c # bs) = decodeMap lib f v (uint (c - 102)) bs"
proof -
  have cls: "\<not> isFixedPosInt c" "\<not> isFixedNegInt c" "\<not> isFixedString c" "\<not> isString c"
    "\<not> isFixedSlice c" "isFixedMap c"
    using assms
    by (simp_all add: isFixedPosInt_def isFixedNegInt_def isFixedString_def isString_def
        isFixedSlice_def isFixedMap_def tags byte_arith)
  have "dictFixedStart = 102"
    by (simp add: tags)
  then show ?thesis
    using not_tag [of c] assms cls by (simp add: decodeValue.simps(3))
qed

subsection \<open>Scalars decode to themselves\<close>

lemma setInt_FormatInt:
  "setInt lib (FormatInt k) (IfaceSlot old) =
    (if - (2 ^ 63) \<le> k \<and> k < 2 ^ 63 then Inr (IfaceSlot (DInt (word_of_int k)))
     else case sscanBigInt lib (FormatInt k) of
            Inl e \<Rightarrow> Inl e | Inr bi \<Rightarrow> Inr (IfaceSlot (DBigInt bi)))"
  by (simp add: setInt_def ParseInt_FormatInt)

lemma setInt_sint:
  "setInt lib (FormatInt (sint (i :: 64 word))) (IfaceSlot old) = Inr (IfaceSlot (DInt i))"
  using sint_ge [of i] sint_lt [of i] by (simp add: setInt_FormatInt)

lemma readFull_append [simp]: "readFull (length xs) (xs @ rest) = Inr (xs, rest)"
  by (simp add: readFull_def)

lemma readFull_bigEndian [simp]: "readFull n (bigEndian n x @ rest) = Inr (bigEndian n x, rest)"
  using readFull_append [of "bigEndian n x" rest] by simp

lemma unat_ucast_byte: "unat (ucast (i :: 64 word) :: byte) = nat (sint i mod 256)"
  using uint_ucast_sint [of i] by (simp add: unat_eq_nat_uint del: nat_uint_eq)

lemma decode_encodeInt:
  "decodeValue lib (Suc f) (IfaceSlot old) (fst (encodeInt i) @ rest) = Inr (IfaceSlot (DInt i), rest)"
proof -
  consider (pos) "0 \<le> sint i" "sint i < 44"
    | (neg) "- 32 \<le> sint i" "sint i < 0"
    | (i8) "\<not> (0 \<le> sint i \<and> sint i < 44)" "\<not> (- 32 \<le> sint i \<and> sint i < 0)" "- 128 \<le> sint i" "sint i \<le> 127"
    | (i16) "\<not> (- 128 \<le> sint i \<and> sint i \<le> 127)" "- 32768 \<le> sint i" "sint i \<le> 32767"
    | (i32) "\<not> (- 32768 \<le> sint i \<and> sint i \<le> 32767)" "- 2147483648 \<le> sint i" "sint i \<le> 2147483647"
    | (i64) "\<not> (- 2147483648 \<le> sint i \<and> sint i \<le> 2147483647)"
    by linarith
  then show ?thesis
  proof cases
    case pos
    then have enc: "fst (encodeInt i) = [ucast i]"
      by (simp add: encodeInt_def tags)
    have u: "unat (ucast i :: byte) < 44" "uint (ucast i :: byte) = sint i"
      using pos by (simp_all add: unat_ucast_byte uint_ucast_sint)
    show ?thesis
      by (simp add: enc dv_fixedPos [OF u(1)] u(2) setInt_sint)
  next
    case neg
    then have enc: "fst (encodeInt i) = [70 - 1 - ucast i]"
      by (simp add: encodeInt_def tags)
    have u: "uint (70 - 1 - ucast i :: byte) = 69 - sint i"
      using fixed_neg_byte [OF neg] by simp
    then have "unat (70 - 1 - ucast i :: byte) = nat (69 - sint i)"
      by (simp add: unat_eq_nat_uint del: nat_uint_eq)
    then have r: "70 \<le> unat (70 - 1 - ucast i :: byte)" "unat (70 - 1 - ucast i :: byte) \<le> 101"
      using neg by simp_all
    show ?thesis
      by (simp only: enc append_Cons append_Nil dv_fixedNeg [OF r] u) (simp add: setInt_sint)
  next
    case i8
    then have enc: "fst (encodeInt i) = [chrInt1, ucast i]"
      by (simp add: encodeInt_def tags)
    have "sint (ucast i :: byte) = sint i"
      using i8 by (intro sint_ucast_range) simp_all
    then show ?thesis
      by (simp add: enc decodeValue.simps(3) tags decodeInt_def readInt_def readFull_def
          fromBigEndian_single setInt_sint)
  next
    case i16
    then have enc: "fst (encodeInt i) = chrInt2 # bigEndian 2 (ucast i :: 16 word)"
      by (auto simp: encodeInt_def tags)
    have "sint (ucast i :: 16 word) = sint i"
      using i16 by (intro sint_ucast_range) simp_all
    then show ?thesis
      by (simp add: enc decodeValue.simps(3) tags decodeInt_def readInt_def
          fromBigEndian_bigEndian setInt_sint)
  next
    case i32
    then have enc: "fst (encodeInt i) = chrInt4 # bigEndian 4 (ucast i :: 32 word)"
      by (auto simp: encodeInt_def tags)
    have "sint (ucast i :: 32 word) = sint i"
      using i32 by (intro sint_ucast_range) simp_all
    then show ?thesis
      by (simp add: enc decodeValue.simps(3) tags decodeInt_def readInt_def
          fromBigEndian_bigEndian setInt_sint)
  next
    case i64
    then have enc: "fst (encodeInt i) = chrInt8 # bigEndian 8 i"
      by (auto simp: encodeInt_def tags)
    show ?thesis
      by (simp add: enc decodeValue.simps(3) tags decodeInt_def readInt_def
          fromBigEndian_bigEndian setInt_sint)
  qed
qed

lemma encodeUint_small:
  assumes "uint (u :: 64 word) \<le> 9223372036854775807"
  shows "encodeUint u = encodeInt u"
proof -
  have "- (2 ^ 63) \<le> (0 :: int)"
    by simp
  also have "0 \<le> uint u"
    by simp
  finally have "- (2 ^ 63) \<le> uint u" .
  moreover have "uint u < 2 ^ 63"
    using assms by simp
  ultimately have "signed_take_bit 63 (uint u) = uint u"
    by (rule signed_take_bit_int_eq_self)
  then have "sint u = uint u"
    by (simp add: sint_uint)
  then show ?thesis
    using assms by (simp add: encodeUint_def encodeInt_def tags)
qed

lemma ReadBytes_found:
  "delim \<notin> set xs \<Longrightarrow> ReadBytes delim (xs @ delim # rest) = Inr (xs @ [delim], rest)"
proof -
  assume "delim \<notin> set xs"
  then have "takeWhile (\<lambda>b. b \<noteq> delim) (xs @ delim # rest) = xs"
    and "dropWhile (\<lambda>b. b \<noteq> delim) (xs @ delim # rest) = delim # rest"
    by (induction xs) auto
  then show ?thesis
    by (simp add: ReadBytes_def)
qed

lemma digits_no_delim: "c \<in> set (digits n) \<Longrightarrow> c \<noteq> 58 \<and> c \<noteq> 127 \<and> c \<noteq> 45 \<and> c \<noteq> 43"
  using digits_range [of c n] by auto

lemma FormatInt_no_term: "chrTerm \<notin> set (FormatInt k)"
  using digits_no_delim [of chrTerm] by (auto simp: FormatInt_def tags)

lemma FormatInt_not_Nil [simp]: "FormatInt k \<noteq> []"
  by (simp add: FormatInt_def)

lemma encodeBigInt_short:
  "length (FormatInt bi) \<le> 64 \<Longrightarrow> encodeBigInt bi = (chrInt # FormatInt bi @ [chrTerm], None)"
  by (simp add: encodeBigInt_def Let_def tags)

lemma decode_bigInt:
  assumes "sscanBigInt lib (FormatInt bi) = Inr bi"
  shows "decodeValue lib (Suc f) (IfaceSlot old) (chrInt # FormatInt bi @ [chrTerm] @ rest) =
      Inr (IfaceSlot (if - (2 ^ 63) \<le> bi \<and> bi < 2 ^ 63 then DInt (word_of_int bi) else DBigInt bi), rest)"
proof -
  have "ReadBytes chrTerm (FormatInt bi @ chrTerm # rest) = Inr (FormatInt bi @ [chrTerm], rest)"
    by (rule ReadBytes_found [OF FormatInt_no_term])
  then have "decodeInt lib (IfaceSlot old) chrInt (FormatInt bi @ chrTerm # rest) =
      map_sum id (\<lambda>v'. (v', rest)) (setInt lib (FormatInt bi) (IfaceSlot old))"
    by (simp add: decodeInt_def tags)
  then show ?thesis
    using assms by (simp add: decodeValue.simps(3) tags setInt_FormatInt)
qed

lemma decode_encodeFloat32:
  "decodeValue lib (Suc f) (IfaceSlot old) (fst (encodeFloat32 x) @ rest) =
     Inr (IfaceSlot (DFloat64 (float32to64 lib x)), rest)"
  by (simp add: encodeFloat32_def decodeValue.simps(3) tags decodeFloat_def setFloat_def
      fromBigEndian_bigEndian)

lemma decode_encodeFloat64:
  "decodeValue lib (Suc f) (IfaceSlot old) (fst (encodeFloat64 x) @ rest) =
     Inr (IfaceSlot (DFloat64 x), rest)"
  by (simp add: encodeFloat64_def decodeValue.simps(3) tags decodeFloat_def setFloat_def
      fromBigEndian_bigEndian)

lemma decode_encodeBool:
  "decodeValue lib (Suc f) (IfaceSlot old) (fst (encodeBool b) @ rest) = Inr (IfaceSlot (DBool b), rest)"
  by (simp add: encodeBool_def decodeValue.simps(3) tags decodeBool_def)

lemma decode_encodeNil:
  "decodeValue lib (Suc f) (IfaceSlot old) (fst encodeNil @ rest) = Inr (IfaceSlot old, rest)"
  by (simp add: encodeNil_def decodeValue.simps(3) tags)

subsection \<open>Byte strings decode to themselves\<close>

lemma encodeBytes_fixed:
  assumes "length s < 64"
  shows "encodeBytes s = ((128 + of_nat (length s)) # s, None)"
proof -
  have "unat (of_nat (length s) :: byte) = length s"
    using assms by (simp add: unat_of_nat)
  then have "(of_nat (length s) :: byte) < strFixedCount"
    using assms by (simp add: word_less_nat_alt tags)
  then show ?thesis
    by (simp add: encodeBytes_def Let_def tags)
qed

lemma encodeBytes_long:
  assumes "64 \<le> length s mod 256"
  shows "encodeBytes s = (digits (length s) @ 58 # s, None)"
proof -
  have "unat (of_nat (length s) :: byte) = length s mod 256"
    by (simp add: unat_of_nat)
  then have "\<not> (of_nat (length s) :: byte) < strFixedCount"
    using assms by (simp add: word_less_nat_alt tags)
  then show ?thesis
    by (simp add: encodeBytes_def Let_def FormatInt_def)
qed

lemma decodeString_exact:
  assumes "length s < 2 ^ 63"
  shows "decodeString v (of_nat (length s)) (s @ rest) =
    (case v of
       StringSlot _ \<Rightarrow> Inr (StringSlot s, rest)
     | SliceSlot _ \<Rightarrow> Inl (DecodeTypeError WireString)
     | IfaceSlot _ \<Rightarrow> Inr (IfaceSlot (DString s), rest))"
proof -
  have "sint (of_nat (length s) :: 64 word) = signed_take_bit 63 (int (length s))"
    by (simp add: signed_of_nat)
  also have "\<dots> = int (length s)"
    using assms by (intro signed_take_bit_int_eq_self) simp_all
  finally have "sint (of_nat (length s) :: 64 word) = int (length s)" .
  then show ?thesis
    by (simp add: decodeString_def)
qed

lemma decode_encodeBytes:
  assumes "stringFits s"
  shows "decodeValue lib (Suc f) v (fst (encodeBytes s) @ rest) =
    (case v of
       StringSlot _ \<Rightarrow> Inr (StringSlot s, rest)
     | SliceSlot _ \<Rightarrow> Inl (DecodeTypeError WireString)
     | IfaceSlot _ \<Rightarrow> Inr (IfaceSlot (DString s), rest))"
proof (cases "length s < 64")
  case True
  let ?c = "128 + of_nat (length s) :: byte"
  have u: "unat ?c = 128 + length s"
    using True by (simp add: unat_word_ariths unat_of_nat)
  then have r: "128 \<le> unat ?c" "unat ?c < 192"
    using True by simp_all
  have "(ucast (?c - 128) :: 64 word) = of_nat (length s)"
    using True by (simp add: word_unat_eq_iff unsigned_ucast_eq unsigned_of_nat take_bit_nat_eq_self)
  then show ?thesis
    using assms
    by (simp add: encodeBytes_fixed [OF True] dv_fixedString [OF r] decodeString_exact stringFits_def)
next
  case False
  then have long: "64 \<le> length s mod 256" and lt: "length s < 2 ^ 63"
    using assms by (simp_all add: stringFits_def countFits_def tags)
  obtain c ds where ds: "digits (length s) = c # ds"
    by (cases "digits (length s)") simp_all
  have r: "48 \<le> unat c" "unat c \<le> 57"
    using hd_digits [of "length s"] by (simp_all add: ds)
  have "58 \<notin> set ds"
    using digits_no_delim [of 58 "length s"] by (auto simp: ds)
  then have rb: "ReadBytes 58 (ds @ 58 # s @ rest) = Inr (ds @ [58], s @ rest)"
    by (rule ReadBytes_found)
  have "ParseInt (c # ds) = Inr (of_nat (length s))"
    using ParseInt_FormatInt [of "int (length s)"] lt by (simp add: FormatInt_def ds)
  then have "decodeStringSize c (ds @ 58 # s @ rest) = Inr (of_nat (length s), s @ rest)"
    by (simp add: decodeStringSize_def rb)
  then show ?thesis
    by (simp add: encodeBytes_long [OF long] ds dv_string [OF r] decodeString_exact [OF lt])
qed

lemma encodeBytes_ok: "snd (encodeBytes s) = None"
  by (simp add: encodeBytes_def Let_def)

lemma encodeBytes_hd:
  assumes "stringFits s"
  shows "fst (encodeBytes s) \<noteq> [] \<and> hd (fst (encodeBytes s)) \<noteq> chrTerm"
proof (cases "length s < 64")
  case True
  have "unat (128 + of_nat (length s) :: byte) = 128 + length s"
    using True by (simp add: unat_word_ariths unat_of_nat)
  then have "(128 + of_nat (length s) :: byte) \<noteq> 127"
    by (auto simp: word_unat_eq_iff)
  then show ?thesis
    by (simp add: encodeBytes_fixed [OF True] tags)
next
  case False
  then have long: "64 \<le> length s mod 256"
    using assms by (simp_all add: stringFits_def countFits_def tags)
  have "hd (digits (length s)) \<noteq> 127"
    using hd_digits [of "length s"] by auto
  then show ?thesis
    by (simp add: encodeBytes_long [OF long] tags)
qed

subsection \<open>The loops over the elements of a list and the entries of a dict\<close>

lemma decodesToD:
  assumes "decodesTo lib bs x" "length bs + length rest < fuel"
  shows "decodeValue lib fuel (IfaceSlot DNil) (bs @ rest) = Inr (IfaceSlot x, rest)"
  using assms by (simp add: decodesTo_def)

lemma decodesTo_hd:
  assumes "decodesTo lib bs x"
  shows "bs \<noteq> []" and "hd (bs @ rest) \<noteq> chrTerm"
  using assms by (simp_all add: decodesTo_def)

lemma sliceLoop_fixed:
  assumes "\<forall>item \<in> set items. decodesTo lib (fst item) (snd item)"
    and "int (length xs + length items) = sz"
    and "length (concat (map fst items)) + length rest < fuel"
  shows "decodeSliceLoop lib fuel sz (length xs) xs (concat (map fst items) @ rest) =
    Inr (xs @ map snd items, rest)"
  using assms
proof (induction items arbitrary: xs fuel)
  case Nil
  then obtain f where "fuel = Suc f"
    by (cases fuel) simp_all
  then show ?case
    using Nil by (auto simp: decodeSliceLoop.simps(2))
next
  case (Cons item items)
  obtain bs x where item: "item = (bs, x)"
    by (cases item)
  from Cons.prems(3) obtain f where fuel: "fuel = Suc f"
    by (cases fuel) simp_all
  let ?more = "concat (map fst items) @ rest"
  have d: "decodesTo lib bs x"
    using Cons.prems(1) by (simp add: item)
  then have ne: "bs \<noteq> []"
    by (simp add: decodesTo_def)
  have "length bs + length ?more < Suc f"
    using Cons.prems(3) by (simp add: item fuel)
  then have elem: "decodeValue lib (Suc f) (IfaceSlot DNil) (bs @ ?more) = Inr (IfaceSlot x, ?more)"
    by (rule decodesToD [OF d])
  have "length (concat (map fst items)) + length rest < f"
    using Cons.prems(3) ne by (cases bs) (simp_all add: item fuel)
  moreover have "int (length (xs @ [x]) + length items) = sz"
    using Cons.prems(2) by simp
  ultimately have "decodeSliceLoop lib f sz (length (xs @ [x])) (xs @ [x]) ?more =
      Inr ((xs @ [x]) @ map snd items, rest)"
    using Cons.prems(1) by (intro Cons.IH) simp_all
  then show ?case
    using Cons.prems(2) elem by (simp add: item fuel decodeSliceLoop.simps(2))
qed

lemma sliceLoop_terminated:
  assumes "\<forall>item \<in> set items. decodesTo lib (fst item) (snd item)"
    and "length (concat (map fst items)) + Suc (length rest) < fuel"
  shows "decodeSliceLoop lib fuel (- 1) (length xs) xs (concat (map fst items) @ chrTerm # rest) =
    Inr (xs @ map snd items, rest)"
  using assms
proof (induction items arbitrary: xs fuel)
  case Nil
  then obtain f where "fuel = Suc f"
    by (cases fuel) simp_all
  then show ?case
    by (simp add: decodeSliceLoop.simps(2))
next
  case (Cons item items)
  obtain bs x where item: "item = (bs, x)"
    by (cases item)
  from Cons.prems(2) obtain f where fuel: "fuel = Suc f"
    by (cases fuel) simp_all
  let ?more = "concat (map fst items) @ chrTerm # rest"
  have d: "decodesTo lib bs x"
    using Cons.prems(1) by (simp add: item)
  have ne: "bs \<noteq> []" "hd (bs @ ?more) \<noteq> chrTerm"
    by (rule decodesTo_hd [OF d])+
  have "length bs + length ?more < Suc f"
    using Cons.prems(2) by (simp add: item fuel)
  then have elem: "decodeValue lib (Suc f) (IfaceSlot DNil) (bs @ ?more) = Inr (IfaceSlot x, ?more)"
    by (rule decodesToD [OF d])
  have "length (concat (map fst items)) + Suc (length rest) < f"
    using Cons.prems(2) ne by (cases bs) (simp_all add: item fuel)
  then have "decodeSliceLoop lib f (- 1) (length (xs @ [x])) (xs @ [x]) ?more =
      Inr ((xs @ [x]) @ map snd items, rest)"
    using Cons.prems(1) by (intro Cons.IH) simp_all
  then show ?case
    using elem ne by (simp add: item fuel decodeSliceLoop.simps(2))
qed

lemma SetMapIndex_fresh: "k \<notin> fst ` set m \<Longrightarrow> SetMapIndex k x m = m @ [(k, x)]"
  by (induction m) auto

lemma encodeBytes_hd_append:
  assumes "stringFits k"
  shows "fst (encodeBytes k) @ after \<noteq> []" and "hd (fst (encodeBytes k) @ after) \<noteq> chrTerm"
  using encodeBytes_hd [OF assms] by simp_all

lemma entryBytes_triple [simp]: "entryBytes (k, bs, x) = fst (encodeBytes k) @ bs"
  by (simp add: entryBytes_def)

lemma mapLoop_step:
  assumes k: "stringFits k" and d: "decodesTo lib bs x" and fresh: "k \<notin> fst ` set m"
    and cond: "(0 \<le> sz \<and> int i < sz) \<or> sz < 0"
    and fuel: "length (fst (encodeBytes k) @ bs) + length after < Suc f"
  shows "decodeMapLoop lib (Suc f) sz i m (fst (encodeBytes k) @ bs @ after) =
    decodeMapLoop lib f sz (Suc i) (m @ [(k, x)]) after"
proof -
  have key: "decodeValue lib (Suc f) (StringSlot []) (fst (encodeBytes k) @ bs @ after) =
      Inr (StringSlot k, bs @ after)"
    using decode_encodeBytes [OF k, of lib f "StringSlot []" "bs @ after"] by simp
  have "length bs + length after < Suc f"
    using fuel by simp
  then have val: "decodeValue lib (Suc f) (IfaceSlot DNil) (bs @ after) = Inr (IfaceSlot x, after)"
    by (rule decodesToD [OF d])
  have ne: "fst (encodeBytes k) @ bs @ after \<noteq> []"
    and hd: "hd (fst (encodeBytes k) @ bs @ after) \<noteq> chrTerm"
    by (rule encodeBytes_hd_append [OF k])+
  show ?thesis
    by (subst decodeMapLoop.simps(2))
      (simp only: cond ne hd key val if_True if_False sum.case prod.case stringOf.simps
        ifaceOf.simps SetMapIndex_fresh [OF fresh] simp_thms)
qed

lemma mapLoop_fixed:
  assumes "\<forall>item \<in> set items. stringFits (fst item) \<and> decodesTo lib (fst (snd item)) (snd (snd item))"
    and "distinct (map fst m @ map fst items)"
    and "int (length m + length items) = sz"
    and "length (concat (map entryBytes items)) + length rest < fuel"
  shows "decodeMapLoop lib fuel sz (length m) m (concat (map entryBytes items) @ rest) =
    Inr (m @ map (\<lambda>item. (fst item, snd (snd item))) items, rest)"
  using assms
proof (induction items arbitrary: m fuel)
  case Nil
  then obtain f where "fuel = Suc f"
    by (cases fuel) simp_all
  then show ?case
    using Nil by (auto simp: decodeMapLoop.simps(2))
next
  case (Cons item items)
  obtain k bs x where item: "item = (k, bs, x)"
    by (cases item)
  from Cons.prems(4) obtain f where fuel: "fuel = Suc f"
    by (cases fuel) simp_all
  let ?tl = "concat (map entryBytes items) @ rest"
  have k: "stringFits k" and d: "decodesTo lib bs x"
    using Cons.prems(1) by (simp_all add: item)
  have fresh: "k \<notin> fst ` set m"
    using Cons.prems(2) by (auto simp: item)
  have cond: "(0 \<le> sz \<and> int (length m) < sz) \<or> sz < 0"
    using Cons.prems(3) by auto
  have len: "length (fst (encodeBytes k) @ bs) + length ?tl < Suc f"
    using Cons.prems(4) by (simp add: item fuel)
  have step: "decodeMapLoop lib (Suc f) sz (length m) m (fst (encodeBytes k) @ bs @ ?tl) =
      decodeMapLoop lib f sz (Suc (length m)) (m @ [(k, x)]) ?tl"
    by (rule mapLoop_step [OF k d fresh cond len])
  have "bs \<noteq> []"
    by (rule decodesTo_hd [OF d])
  then have "length (concat (map entryBytes items)) + length rest < f"
    using len by (cases bs) simp_all
  moreover have "distinct (map fst (m @ [(k, x)]) @ map fst items)"
    using Cons.prems(2) by (auto simp: item)
  moreover have "int (length (m @ [(k, x)]) + length items) = sz"
    using Cons.prems(3) by simp
  ultimately have "decodeMapLoop lib f sz (length (m @ [(k, x)])) (m @ [(k, x)]) ?tl =
      Inr ((m @ [(k, x)]) @ map (\<lambda>item. (fst item, snd (snd item))) items, rest)"
    using Cons.prems(1) by (intro Cons.IH) simp_all
  then show ?case
    using step by (simp add: item fuel)
qed

lemma mapLoop_terminated:
  assumes "\<forall>item \<in> set items. stringFits (fst item) \<and> decodesTo lib (fst (snd item)) (snd (snd item))"
    and "distinct (map fst m @ map fst items)"
    and "length (concat (map entryBytes items)) + Suc (length rest) < fuel"
  shows "decodeMapLoop lib fuel (- 1) i m (concat (map entryBytes items) @ chrTerm # rest) =
    Inr (m @ map (\<lambda>item. (fst item, snd (snd item))) items, rest)"
  using assms
proof (induction items arbitrary: m fuel i)
  case Nil
  then obtain f where "fuel = Suc f"
    by (cases fuel) simp_all
  then show ?case
    by (simp add: decodeMapLoop.simps(2))
next
  case (Cons item items)
  obtain k bs x where item: "item = (k, bs, x)"
    by (cases item)
  from Cons.prems(3) obtain f where fuel: "fuel = Suc f"
    by (cases fuel) simp_all
  let ?tl = "concat (map entryBytes items) @ chrTerm # rest"
  have k: "stringFits k" and d: "decodesTo lib bs x"
    using Cons.prems(1) by (simp_all add: item)
  have fresh: "k \<notin> fst ` set m"
    using Cons.prems(2) by (auto simp: item)
  have cond: "(0 \<le> (- 1 :: int) \<and> int i < - 1) \<or> (- 1 :: int) < 0"
    by simp
  have len: "length (fst (encodeBytes k) @ bs) + length ?tl < Suc f"
    using Cons.prems(3) by (simp add: item fuel)
  have step: "decodeMapLoop lib (Suc f) (- 1) i m (fst (encodeBytes k) @ bs @ ?tl) =
      decodeMapLoop lib f (- 1) (Suc i) (m @ [(k, x)]) ?tl"
    by (rule mapLoop_step [OF k d fresh cond len])
  have "bs \<noteq> []"
    by (rule decodesTo_hd [OF d])
  then have "length (concat (map entryBytes items)) + Suc (length rest) < f"
    using len by (cases bs) simp_all
  moreover have "distinct (map fst (m @ [(k, x)]) @ map fst items)"
    using Cons.prems(2) by (auto simp: item)
  ultimately have "decodeMapLoop lib f (- 1) (Suc i) (m @ [(k, x)]) ?tl =
      Inr ((m @ [(k, x)]) @ map (\<lambda>item. (fst item, snd (snd item))) items, rest)"
    using Cons.prems(1) by (intro Cons.IH) simp_all
  then show ?case
    using step by (simp add: item fuel)
qed

subsection \<open>Lists and dicts decode to their canonical values\<close>

lemma dv_term: "decodeValue lib (Suc f) v (chrTerm # bs) = Inl (UnsupportedCode chrTerm)"
  by (simp add: decodeValue.simps(3) tags isFixedPosInt_def isFixedNegInt_def isFixedString_def
      isString_def isFixedSlice_def isFixedMap_def)

lemma decodesToI:
  assumes "\<And>f rest. decodeValue lib (Suc f) (IfaceSlot DNil) (bs @ rest) = Inr (IfaceSlot x, rest)"
  shows "decodesTo lib bs x"
proof -
  have ne: "bs \<noteq> []"
    using assms [of 0 "[]"] by auto
  have "hd bs \<noteq> chrTerm"
  proof
    assume "hd bs = chrTerm"
    with ne have "bs = chrTerm # tl bs"
      by (cases bs) simp_all
    then have "decodeValue lib (Suc 0) (IfaceSlot DNil) (bs @ []) = Inl (UnsupportedCode chrTerm)"
      using dv_term [of lib 0 "IfaceSlot DNil" "tl bs"] by simp
    with assms [of 0 "[]"] show False
      by simp
  qed
  moreover have "decodeValue lib fuel (IfaceSlot DNil) (bs @ rest) = Inr (IfaceSlot x, rest)"
    if "length bs + length rest < fuel" for fuel rest
    using that assms by (cases fuel) simp_all
  ultimately show ?thesis
    using ne by (simp add: decodesTo_def)
qed

lemma inOrder_ok: "\<forall>w \<in> set ws. snd w = None \<Longrightarrow> inOrder ws = (concat (map fst ws), None)"
  by (induction ws) (auto simp: andThen_def)

lemma byte_of_nat_less: "(of_nat n :: byte) < k \<longleftrightarrow> n mod 256 < unat k"
  by (simp add: word_less_nat_alt unat_of_nat)

lemma byte_tag_plus:
  assumes "t + n < 256"
  shows "unat (of_nat t + of_nat n :: byte) = t + n" and "uint (of_nat n :: byte) = int n"
proof -
  show "unat (of_nat t + of_nat n :: byte) = t + n"
    using assms by (simp add: unat_word_ariths unat_of_nat)
  have "unat (of_nat n :: byte) = n"
    using assms by (simp add: unat_of_nat)
  then show "uint (of_nat n :: byte) = int n"
    by (simp add: uint_nat del: of_nat_unat)
qed

lemma roundTrip_slice:
  assumes elems: "\<forall>v \<in> set vs. snd (encodeValue v) = None \<and> decodesTo lib (fst (encodeValue v)) (canon lib v)"
    and fits: "countFits (length vs) listFixedCount"
  shows "snd (encodeValue (VSlice vs)) = None \<and>
    decodesTo lib (fst (encodeValue (VSlice vs))) (canon lib (VSlice vs))"
proof -
  let ?n = "length vs"
  let ?items = "map (\<lambda>v. (fst (encodeValue v), canon lib v)) vs"
  let ?body = "concat (map fst ?items)"
  have body: "inOrder (map encodeValue vs) = (?body, None)"
    using elems by (simp add: inOrder_ok comp_def)
  have items: "\<forall>item \<in> set ?items. decodesTo lib (fst item) (snd item)"
    using elems by simp
  have canon: "map snd ?items = map (canon lib) vs"
    by (simp add: comp_def)
  show ?thesis
  proof (cases "?n < 64")
    case True
    then have fixed: "(of_nat ?n :: byte) < listFixedCount"
      by (simp add: byte_of_nat_less tags)
    let ?c = "192 + of_nat ?n :: byte"
    have enc: "encodeValue (VSlice vs) = (?c # ?body, None)"
      using fixed by (simp add: Let_def body tags)
    have c: "192 \<le> unat ?c" "uint (of_nat ?n :: byte) = int ?n"
      using True byte_tag_plus [of 192 ?n] by simp_all
    have "decodeValue lib (Suc f) (IfaceSlot DNil) ((?c # ?body) @ rest) =
        Inr (IfaceSlot (DList (map (canon lib) vs)), rest)"
      if "length ?body + length rest < f" for f rest
    proof -
      have "decodeSliceLoop lib f (int ?n) (length ([] :: dval list)) [] (?body @ rest) =
          Inr ([] @ map snd ?items, rest)"
        using items that by (intro sliceLoop_fixed) simp_all
      then show ?thesis
        by (simp add: dv_fixedSlice [OF c(1)] c(2) decodeSlice.simps canon del: map_map)
    qed
    then have "decodeValue lib fuel (IfaceSlot DNil) ((?c # ?body) @ rest) =
        Inr (IfaceSlot (DList (map (canon lib) vs)), rest)"
      if "length (?c # ?body) + length rest < fuel" for fuel rest
      using that by (cases fuel) simp_all
    moreover have "unat ?c \<noteq> unat chrTerm"
      using c(1) by (simp add: tags)
    then have "?c \<noteq> chrTerm"
      by (simp add: word_unat_eq_iff)
    ultimately show ?thesis
      unfolding enc by (simp add: decodesTo_def)
  next
    case False
    then have "64 \<le> ?n mod 256"
      using fits by (simp add: countFits_def tags)
    then have long: "\<not> (of_nat ?n :: byte) < listFixedCount"
      by (simp add: byte_of_nat_less tags)
    have enc: "encodeValue (VSlice vs) = (chrList # ?body @ [chrTerm], None)"
      using long by (simp add: Let_def body)
    have "decodeValue lib (Suc f) (IfaceSlot DNil) ((chrList # ?body @ [chrTerm]) @ rest) =
        Inr (IfaceSlot (DList (map (canon lib) vs)), rest)"
      if "length ?body + Suc (length rest) < f" for f rest
    proof -
      have "decodeSliceLoop lib f (- 1) (length ([] :: dval list)) [] (?body @ chrTerm # rest) =
          Inr ([] @ map snd ?items, rest)"
        using items that by (intro sliceLoop_terminated) simp_all
      then show ?thesis
        by (simp add: decodeValue.simps(3) tags decodeSlice.simps canon del: map_map)
    qed
    then have "decodeValue lib fuel (IfaceSlot DNil) ((chrList # ?body @ [chrTerm]) @ rest) =
        Inr (IfaceSlot (DList (map (canon lib) vs)), rest)"
      if "length (chrList # ?body @ [chrTerm]) + length rest < fuel" for fuel rest
      using that by (cases fuel) simp_all
    then show ?thesis
      unfolding enc by (simp add: decodesTo_def tags)
  qed
qed

lemma roundTrip_map:
  assumes vals: "\<forall>kv \<in> set kvs. stringFits (fst kv) \<and> snd (encodeValue (snd kv)) = None \<and>
      decodesTo lib (fst (encodeValue (snd kv))) (canon lib (snd kv))"
    and dist: "distinct (map fst kvs)"
    and fits: "countFits (length kvs) dictFixedCount"
  shows "snd (encodeValue (VMap kvs)) = None \<and>
    decodesTo lib (fst (encodeValue (VMap kvs))) (canon lib (VMap kvs))"
proof -
  let ?n = "length kvs"
  let ?ks = "sort (map fst kvs)"
  let ?val = "\<lambda>key. the (map_of kvs key)"
  let ?items = "map (\<lambda>key. (key, fst (encodeValue (?val key)), canon lib (?val key))) ?ks"
  let ?body = "concat (map entryBytes ?items)"
  have look: "\<exists>val. map_of kvs key = Some val \<and> (key, val) \<in> set kvs" if "key \<in> set ?ks" for key
  proof -
    from that obtain val where "(key, val) \<in> set kvs"
      by auto
    then have "map_of kvs key = Some val"
      using dist by simp
    then show ?thesis
      using \<open>(key, val) \<in> set kvs\<close> by simp
  qed
  have "(case map_of kvs key of None \<Rightarrow> failed Panic
         | Some val \<Rightarrow> andThen (encodeBytes key) (encodeValue val)) =
      (entryBytes (key, fst (encodeValue (?val key)), canon lib (?val key)), None)"
    if "key \<in> set ?ks" for key
  proof -
    from look [OF that] obtain val where val: "map_of kvs key = Some val" "(key, val) \<in> set kvs"
      by blast
    have "snd (encodeValue val) = None"
      using val(2) vals by fastforce
    then show ?thesis
      using encodeBytes_ok [of key] by (simp add: val(1) andThen_def split: prod.splits)
  qed
  then have "map (\<lambda>key. case map_of kvs key of None \<Rightarrow> failed Panic
         | Some val \<Rightarrow> andThen (encodeBytes key) (encodeValue val)) ?ks =
      map (\<lambda>item. (entryBytes item, None)) ?items"
    by (simp add: comp_def)
  then have body: "inOrder (map (\<lambda>key. case map_of kvs key of None \<Rightarrow> failed Panic
         | Some val \<Rightarrow> andThen (encodeBytes key) (encodeValue val)) ?ks) = (?body, None)"
    by (simp only: inOrder_ok) (simp add: inOrder_ok comp_def)
  have "stringFits key \<and> decodesTo lib (fst (encodeValue (?val key))) (canon lib (?val key))"
    if "key \<in> set ?ks" for key
  proof -
    from look [OF that] obtain val where val: "map_of kvs key = Some val" "(key, val) \<in> set kvs"
      by blast
    show ?thesis
      using val(2) vals by (fastforce simp: val(1))
  qed
  then have items: "\<forall>item \<in> set ?items. stringFits (fst item) \<and> decodesTo lib (fst (snd item)) (snd (snd item))"
    by auto
  have dks: "distinct (map fst ([] :: (byte list \<times> dval) list) @ map fst ?items)"
    using dist by (simp add: comp_def)
  have len: "length ?items = ?n"
    by simp
  have "(case map_of kvs key of None \<Rightarrow> DNil | Some val \<Rightarrow> canon lib val) = canon lib (?val key)"
    if "key \<in> set ?ks" for key
    using look [OF that] by auto
  then have canon: "canon lib (VMap kvs) = DDict (map (\<lambda>item. (fst item, snd (snd item))) ?items)"
    by (simp add: comp_def)
  show ?thesis
  proof (cases "?n < 25")
    case True
    then have fixed: "(of_nat ?n :: byte) < dictFixedCount"
      by (simp add: byte_of_nat_less tags)
    let ?c = "102 + of_nat ?n :: byte"
    have enc: "encodeValue (VMap kvs) = (?c # ?body, None)"
      using fixed by (simp add: Let_def body tags del: map_map)
    have c: "102 \<le> unat ?c" "unat ?c < 127" "uint (of_nat ?n :: byte) = int ?n"
      using True byte_tag_plus [of 102 ?n] by simp_all
    have "decodeValue lib (Suc f) (IfaceSlot DNil) ((?c # ?body) @ rest) =
        Inr (IfaceSlot (canon lib (VMap kvs)), rest)"
      if "length ?body + length rest < f" for f rest
    proof -
      have "decodeMapLoop lib f (int ?n) (length ([] :: (byte list \<times> dval) list)) [] (?body @ rest) =
          Inr ([] @ map (\<lambda>item. (fst item, snd (snd item))) ?items, rest)"
        using items dks that by (intro mapLoop_fixed) (simp_all del: map_map)
      then show ?thesis
        unfolding canon
        by (simp add: dv_fixedMap [OF c(1,2)] c(3) decodeMap.simps del: map_map)
    qed
    then have "decodeValue lib fuel (IfaceSlot DNil) ((?c # ?body) @ rest) =
        Inr (IfaceSlot (canon lib (VMap kvs)), rest)"
      if "length (?c # ?body) + length rest < fuel" for fuel rest
      using that by (cases fuel) (simp_all del: map_map canon.simps)
    moreover have "unat ?c \<noteq> unat chrTerm"
      using c(2) by (simp add: tags)
    then have "?c \<noteq> chrTerm"
      by (simp add: word_unat_eq_iff)
    ultimately show ?thesis
      unfolding enc by (simp add: decodesTo_def del: map_map canon.simps)
  next
    case False
    then have "25 \<le> ?n mod 256"
      using fits by (simp add: countFits_def tags)
    then have long: "\<not> (of_nat ?n :: byte) < dictFixedCount"
      by (simp add: byte_of_nat_less tags)
    have enc: "encodeValue (VMap kvs) = (chrDict # ?body @ [chrTerm], None)"
      using long by (simp add: Let_def body del: map_map)
    have "decodeValue lib (Suc f) (IfaceSlot DNil) ((chrDict # ?body @ [chrTerm]) @ rest) =
        Inr (IfaceSlot (canon lib (VMap kvs)), rest)"
      if "length ?body + Suc (length rest) < f" for f rest
    proof -
      have "decodeMapLoop lib f (- 1) 0 [] (?body @ chrTerm # rest) =
          Inr ([] @ map (\<lambda>item. (fst item, snd (snd item))) ?items, rest)"
        using items dks that by (intro mapLoop_terminated) (simp_all del: map_map)
      then show ?thesis
        unfolding canon
        by (simp add: decodeValue.simps(3) tags decodeMap.simps del: map_map)
    qed
    then have "decodeValue lib fuel (IfaceSlot DNil) ((chrDict # ?body @ [chrTerm]) @ rest) =
        Inr (IfaceSlot (canon lib (VMap kvs)), rest)"
      if "length (chrDict # ?body @ [chrTerm]) + length rest < fuel" for fuel rest
      using that by (cases fuel) (simp_all del: map_map canon.simps)
    then show ?thesis
      unfolding enc by (simp add: decodesTo_def tags del: map_map canon.simps)
  qed
qed

subsection \<open>Every supported value decodes to its canonical value\<close>

lemma encodeInt_ok: "snd (encodeInt i) = None"
  by (simp add: encodeInt_def)

lemma roundTrip_value:
  assumes lib: "\<forall>n. sscanBigInt lib (FormatInt n) = Inr n"
  shows "supported v \<Longrightarrow>
    snd (encodeValue v) = None \<and> decodesTo lib (fst (encodeValue v)) (canon lib v)"
proof (induction v)
  case VNil
  show ?case
    using decode_encodeNil [where lib = lib and old = DNil] by (auto intro: decodesToI simp: encodeNil_def)
next
  case (VBool b)
  show ?case
    using decode_encodeBool [where lib = lib and old = DNil and b = b] by (auto intro: decodesToI simp: encodeBool_def)
next
  case (VInt i)
  show ?case
    using decode_encodeInt [where lib = lib and old = DNil and i = i] by (auto intro: decodesToI simp: encodeInt_ok)
next
  case (VUint u)
  show ?case
  proof (cases "uint u \<le> 9223372036854775807")
    case True
    then show ?thesis
      using decode_encodeInt [where lib = lib and old = DNil and i = u]
      by (auto intro: decodesToI simp: encodeInt_ok encodeUint_small)
  next
    case False
    then have big: "9223372036854775807 < uint u"
      by simp
    have "decodeValue lib (Suc f) (IfaceSlot DNil) (fst (encodeUint u) @ rest) =
        Inr (IfaceSlot (DBigInt (uint u)), rest)" for f rest
      using decode_bigInt [where lib = lib and bi = "uint u" and f = f and old = DNil and rest = rest] lib big
      by (simp add: encodeUint_big [OF big])
    then show ?thesis
      using big by (auto intro: decodesToI simp: encodeUint_big [OF big])
  qed
next
  case (VFloat32 x)
  show ?case
    using decode_encodeFloat32 [where lib = lib and old = DNil and x = x] by (auto intro: decodesToI simp: encodeFloat32_def)
next
  case (VFloat64 x)
  show ?case
    using decode_encodeFloat64 [where lib = lib and old = DNil and x = x] by (auto intro: decodesToI simp: encodeFloat64_def)
next
  case (VBigInt bi)
  then have len: "length (FormatInt bi) \<le> 64"
    by simp
  have "decodeValue lib (Suc f) (IfaceSlot DNil) (fst (encodeBigInt bi) @ rest) =
      Inr (IfaceSlot (canon lib (VBigInt bi)), rest)" for f rest
    using decode_bigInt [where lib = lib and bi = bi and f = f and old = DNil and rest = rest] lib
    by (simp add: encodeBigInt_short [OF len])
  then show ?case
    by (auto intro: decodesToI simp: encodeBigInt_short [OF len] simp del: canon.simps)
next
  case (VString s)
  then show ?case
    using decode_encodeBytes [where s = s and lib = lib and v = "IfaceSlot DNil"]
    by (auto intro: decodesToI simp: encodeBytes_ok)
next
  case (VBytes s)
  then show ?case
    using decode_encodeBytes [where s = s and lib = lib and v = "IfaceSlot DNil"]
    by (auto intro: decodesToI simp: encodeBytes_ok)
next
  case (VSlice vs)
  then show ?case
    by (intro roundTrip_slice) simp_all
next
  case (VMap kvs)
  have "stringFits (fst kv) \<and> snd (encodeValue (snd kv)) = None \<and>
      decodesTo lib (fst (encodeValue (snd kv))) (canon lib (snd kv))" if kv: "kv \<in> set kvs" for kv
  proof -
    have sup: "stringFits (fst kv)" "supported (snd kv)"
      using VMap.prems kv by auto
    have "snd kv \<in> Basic_BNFs.snds kv"
      by (cases kv) simp
    from VMap.IH [OF kv this sup(2)] sup(1) show ?thesis
      by simp
  qed
  then show ?case
    using VMap.prems by (intro roundTrip_map) simp_all
next
  case (VPtr p)
  show ?case
  proof (cases p)
    case None
    then show ?thesis
      using decode_encodeNil [where lib = lib and old = DNil] by (auto intro: decodesToI simp: encodeNil_def)
  next
    case (Some v)
    then show ?thesis
      using VPtr by simp
  qed
next
  case VOther
  then show ?case by simp
qed

lemma scanDigits_digits: "scanDigits a (digits n @ cs) = scanDigits (a * 10 ^ length (digits n) + n) cs"
proof (induction n arbitrary: a cs rule: digits.induct)
  case (1 n)
  show ?case
  proof (cases "n < 10")
    case True
    then have "unat (48 + of_nat n - 48 :: byte) = n"
      by (simp add: unat_of_nat)
    then show ?thesis
      using True by (simp add: digits.simps [of n])
  next
    case False
    have "unat (48 + of_nat (n mod 10) - 48 :: byte) = n mod 10"
      by (simp add: unat_of_nat)
    moreover have "length (digits n) = Suc (length (digits (n div 10)))"
      using False by (simp add: digits.simps [of n])
    moreover have "digits n @ cs = digits (n div 10) @ (48 + of_nat (n mod 10)) # cs"
      using False by (simp add: digits.simps [of n])
    moreover have "(a * 10 ^ length (digits (n div 10)) + n div 10) * 10 + n mod 10 =
        a * 10 ^ Suc (length (digits (n div 10))) + n"
      by (simp add: algebra_simps)
    ultimately show ?thesis
      using "1.IH" [OF False, of a "(48 + of_nat (n mod 10)) # cs"] by (simp add: ac_simps)
  qed
qed

lemma scanDecimal_FormatInt: "scanDecimal (FormatInt n) = Inr n"
proof -
  have "hd (digits m) \<noteq> 45" for m
    using hd_digits [of m] by auto
  then show ?thesis
    using scanDigits_digits [of 0 _ "[]"] by (simp add: scanDecimal_def FormatInt_def)
qed

lemma exampleLib_scans: "\<forall>n. sscanBigInt exampleLib (FormatInt n) = Inr n"
  by (simp add: exampleLib_def scanDecimal_FormatInt)

text \<open>
  Claim C1 as amended: every supported value (a value of the data model whose big
  integers print in at most 64 characters, sign included, and whose byte strings,
  lists and dicts have counts that the encoder's test on the low eight bits puts
  on the right side) encodes with success, and decoding the bytes into a fresh
  untyped slot reads all of them and stores the canonical value, when
  \<^verbatim>\<open>fmt.Sscan\<close> reads back the numerals that \<^verbatim>\<open>big.Int.String\<close> prints.
\<close>

theorem round_trip:
  assumes "supported v" and "\<forall>n. sscanBigInt lib (FormatInt n) = Inr n"
  shows "snd (Encode v) = None \<and>
    Decode lib (IfaceSlot DNil) (fst (Encode v)) = Inr (IfaceSlot (canon lib v), [])"
proof -
  have ok: "snd (encodeValue v) = None" and d: "decodesTo lib (fst (encodeValue v)) (canon lib v)"
    using roundTrip_value [OF assms(2) assms(1)] by simp_all
  have "decodeValue lib (Suc (length (fst (encodeValue v)))) (IfaceSlot DNil) (fst (encodeValue v) @ []) =
      Inr (IfaceSlot (canon lib v), [])"
    by (rule decodesToD [OF d]) simp
  then show ?thesis
    using ok by (simp add: Encode_def Decode_def)
qed

text \<open>
  Claim C1 says that every big integer of at most 64 decimal digits makes the round
  trip. The negative number of 64 digits \<open>- 10 ^ 63\<close> does not: its numeral has 65
  characters with the sign, and the encoder refuses it.
\<close>

lemma length_digits_pow: "length (digits (10 ^ k)) = Suc k"
proof -
  have "length (digits (10 ^ k)) \<le> Suc k"
    by (rule length_digits_le) simp_all
  moreover have "k < length (digits (10 ^ k))"
    by (rule length_digits_gt) simp
  ultimately show ?thesis
    by simp
qed

theorem round_trip_fails_negative_64_digits:
  "length (digits (10 ^ 63)) = 64 \<and> Encode (VBigInt (- (10 ^ 63))) = ([], Some NumberTooLong)"
  using length_digits_pow [of 63]
  by (simp add: Encode_def encodeBigInt_def FormatInt_def tags)

subsection \<open>One whole value for each success\<close>

text \<open>
  Claim C6: \<^verbatim>\<open>Encode\<close> is to write exactly one whole wire value when it returns
  success. For a byte string of 256 bytes it returns success and has written tag
  128 and the 256 bytes: the decoder reads the empty string from them and leaves
  256 bytes unread. For a value of a kind that \<^verbatim>\<open>encodeValue\<close> has no case for it
  returns success and has written nothing.
\<close>

theorem Encode_256_bytes_two_values:
  "Encode (VBytes (replicate 256 0)) = (128 # replicate 256 0, None) \<and>
   Decode lib (IfaceSlot DNil) (128 # replicate 256 0) = Inr (IfaceSlot (DString []), replicate 256 0) \<and>
   Encode VOther = ([], None)"
proof -
  have "(128 :: byte) - 128 = 0"
    by simp
  then have d: "decodeValue lib (Suc f) (IfaceSlot DNil) (128 # bs) = Inr (IfaceSlot (DString []), bs)"
    for f bs
    by (simp add: dv_fixedString decodeString_def readFull_def)
  have "Decode lib (IfaceSlot DNil) (128 # replicate 256 0) =
      Inr (IfaceSlot (DString []), replicate 256 0)"
    unfolding Decode_def by (rule d)
  moreover have "Encode (VBytes (replicate 256 0)) = (128 # replicate 256 0, None)"
    by (simp add: Encode_def encodeBytes_def tags Let_def)
  moreover have "Encode VOther = ([], None)"
    by (simp add: Encode_def)
  ultimately show ?thesis
    by blast
qed

theorem round_trip_witness:
  "supported (VSlice [VInt 127, VBytes [102, 246], VMap [([98], VBool True), ([97], VNil)],
      VBigInt 9223372036854775808]) \<and>
   (\<forall>n. sscanBigInt exampleLib (FormatInt n) = Inr n) \<and>
   Decode exampleLib (IfaceSlot DNil)
     (fst (Encode (VSlice [VInt 127, VBytes [102, 246], VMap [([98], VBool True), ([97], VNil)],
        VBigInt 9223372036854775808]))) =
     Inr (IfaceSlot (DList [DInt 127, DString [102, 246], DDict [([97], DNil), ([98], DBool True)],
        DBigInt 9223372036854775808]), [])"
proof -
  let ?v = "VSlice [VInt 127, VBytes [102, 246], VMap [([98], VBool True), ([97], VNil)],
      VBigInt 9223372036854775808]"
  have h1: "supported ?v"
    by (simp add: stringFits_def countFits_def tags FormatInt_def digits.simps)
  have h2: "\<forall>n. sscanBigInt exampleLib (FormatInt n) = Inr n"
    by (rule exampleLib_scans)
  show ?thesis
    using round_trip [OF h1 h2] h1 h2 by simp
qed

section \<open>Determinism of the encoder\<close>

lemma list_all2_map_eq: "list_all2 (\<lambda>x y. P x y \<and> f x = f y) xs ys \<Longrightarrow> map f xs = map f ys"
  by (induction rule: list_all2_induct) auto

lemma sameValue_encodeValue: "sameValue v w \<Longrightarrow> encodeValue v = encodeValue w"
proof (induction rule: sameValue.induct)
  case (sameSlice vs ws)
  then have "length vs = length ws" and "map encodeValue vs = map encodeValue ws"
    by (auto dest: list_all2_lengthD list_all2_map_eq)
  then show ?case
    by (simp add: Let_def)
next
  case (sameMap xs ys)
  let ?entry = "\<lambda>kvs key. case map_of kvs key of None \<Rightarrow> failed Panic
      | Some val \<Rightarrow> andThen (encodeBytes key) (encodeValue val)"
  have rel: "rel_option (\<lambda>v w. sameValue v w \<and> encodeValue v = encodeValue w) (map_of xs key) (map_of ys key)"
    for key
    using sameMap(3) by blast
  have "map_of xs key = None \<longleftrightarrow> map_of ys key = None" for key
    using rel [of key] by (cases "map_of xs key"; cases "map_of ys key") simp_all
  then have keys: "set (map fst xs) = set (map fst ys)"
    by (simp add: map_of_eq_None_iff set_eq_iff)
  have "sort (map fst xs) = sort (map fst ys)"
    using sameMap(1,2) keys by (intro sorted_distinct_set_unique) simp_all
  moreover have "length xs = length ys"
    using sameMap(1,2) keys distinct_card [of "map fst xs"] distinct_card [of "map fst ys"] by simp
  moreover have "?entry xs = ?entry ys"
  proof
    fix key
    show "?entry xs key = ?entry ys key"
      using rel [of key] by (cases "map_of xs key"; cases "map_of ys key") simp_all
  qed
  ultimately show ?case
    by (simp add: Let_def)
next
  case (samePtr p q)
  then show ?case
    by (cases p; cases q) simp_all
qed simp_all

text \<open>
  Claim C3: two equal values, whose maps may list their keys in different orders,
  encode to the same bytes with the same error; and the entries of a map are
  written in the ascending order of their keys, compared as byte strings.
\<close>

theorem Encode_deterministic:
  "(sameValue v w \<longrightarrow> Encode v = Encode w) \<and>
   (distinct (map fst kvs) \<longrightarrow>
      sorted_wrt (<) (sort (map fst kvs)) \<and> set (sort (map fst kvs)) = fst ` set kvs \<and>
      Encode (VMap kvs) =
        andThen (if (of_nat (length kvs) :: byte) < dictFixedCount
                 then e_write [dictFixedStart + of_nat (length kvs)] else e_write [chrDict])
          (andThen
             (inOrder (map (\<lambda>key. andThen (encodeBytes key) (Encode (the (map_of kvs key))))
                (sort (map fst kvs))))
             (if \<not> (of_nat (length kvs) :: byte) < dictFixedCount then e_write [chrTerm]
              else e_write [])))"
proof -
  have "Encode (VMap kvs) =
        andThen (if (of_nat (length kvs) :: byte) < dictFixedCount
                 then e_write [dictFixedStart + of_nat (length kvs)] else e_write [chrDict])
          (andThen
             (inOrder (map (\<lambda>key. andThen (encodeBytes key) (Encode (the (map_of kvs key))))
                (sort (map fst kvs))))
             (if \<not> (of_nat (length kvs) :: byte) < dictFixedCount then e_write [chrTerm]
              else e_write []))"
    if "distinct (map fst kvs)"
  proof -
    have "(case map_of kvs key of None \<Rightarrow> failed Panic
           | Some val \<Rightarrow> andThen (encodeBytes key) (encodeValue val)) =
        andThen (encodeBytes key) (encodeValue (the (map_of kvs key)))"
      if "key \<in> set (sort (map fst kvs))" for key
    proof -
      from that obtain val where "(key, val) \<in> set kvs"
        by auto
      then have "map_of kvs key = Some val"
        using \<open>distinct (map fst kvs)\<close> by simp
      then show ?thesis
        by simp
    qed
    then have meq: "map (\<lambda>key. case map_of kvs key of None \<Rightarrow> failed Panic
           | Some val \<Rightarrow> andThen (encodeBytes key) (encodeValue val)) (sort (map fst kvs)) =
        map (\<lambda>key. andThen (encodeBytes key) (encodeValue (the (map_of kvs key)))) (sort (map fst kvs))"
      by (intro map_cong refl)
    show ?thesis
      by (simp only: Encode_def encodeValue.simps Let_def meq)
  qed
  moreover have "sorted_wrt (<) (sort (map fst kvs))" if "distinct (map fst kvs)"
    using that by (simp add: strict_sorted_iff)
  ultimately show ?thesis
    using sameValue_encodeValue [of v w] by (simp add: Encode_def del: e_write_def)
qed

theorem Encode_deterministic_witness:
  "sameValue (VMap [([98], VInt 1), ([97], VInt 2)]) (VMap [([97], VInt 2), ([98], VInt 1)]) \<and>
   Encode (VMap [([98], VInt 1), ([97], VInt 2)]) = ([104, 129, 97, 2, 129, 98, 1], None) \<and>
   Encode (VMap [([97], VInt 2), ([98], VInt 1)]) = ([104, 129, 97, 2, 129, 98, 1], None)"
proof -
  have h: "sameValue (VMap [([98], VInt 1), ([97], VInt 2)]) (VMap [([97], VInt 2), ([98], VInt 1)])"
    by (rule sameMap) (auto intro: sameValue.intros)
  have e: "Encode (VMap [([97], VInt 2), ([98], VInt 1)]) = ([104, 129, 97, 2, 129, 98, 1], None)"
    by (simp add: Encode_def Let_def tags encodeBytes_def encodeInt_def)
  show ?thesis
    using Encode_deterministic [of "VMap [([98], VInt 1), ([97], VInt 2)]"
        "VMap [([97], VInt 2), ([98], VInt 1)]" "[([98], VInt 1), ([97], VInt 2)]"] h e
    by simp
qed


end
